theory Spec2Isabelle
  imports Complex_Main "HOL-Library.Word" "HOL-Library.Multiset" "HOL-Library.Countable"
begin

unbundle bit_operations_syntax

section \<open>Errors raised by the poker bot (proj2)\<close>

text \<open>
  Every \<^verbatim>\<open>raise\<close> of deck.py, eval.py and bot.py is one constructor. All of them are
  Python \<^verbatim>\<open>ValueError\<close>s except \<open>FileNotFound\<close> (\<^verbatim>\<open>FileNotFoundError\<close>),
  \<open>StructError\<close> (\<^verbatim>\<open>struct.error\<close> of \<^verbatim>\<open>struct.unpack\<close>) and \<open>IndexError\<close>
  (a list read out of range).
\<close>

datatype error =
    InvalidCardString string
  | InvalidRank char
  | InvalidSuit char
  | InvalidCardValue int
  | InvalidCardType
  | NotEnoughCards
  | MustBeSevenCards
  | HandSizeError
  | BoardSizeError
  | MathDomainError
  | EmptySequence
  | FileNotFound string
  | StructError
  | IndexError

fun is_ValueError :: "error \<Rightarrow> bool" where
  "is_ValueError (FileNotFound _) = False"
| "is_ValueError StructError = False"
| "is_ValueError IndexError = False"
| "is_ValueError _ = True"

section \<open>deck.py: Card\<close>

datatype card = Card (card_value: int)

text \<open>The values \<^verbatim>\<open>Card.get_value\<close> dispatches on with \<^verbatim>\<open>isinstance\<close>.\<close>

datatype pyval = PStr string | PInt int | PCard card | POther

definition RANKS :: "(char \<times> int) list" where
  "RANKS = [(CHR ''2'', 0), (CHR ''3'', 1), (CHR ''4'', 2), (CHR ''5'', 3), (CHR ''6'', 4),
            (CHR ''7'', 5), (CHR ''8'', 6), (CHR ''9'', 7), (CHR ''T'', 8), (CHR ''J'', 9),
            (CHR ''Q'', 10), (CHR ''K'', 11), (CHR ''A'', 12)]"

definition SUITS :: "(char \<times> int) list" where
  "SUITS = [(CHR ''s'', 0), (CHR ''h'', 1), (CHR ''d'', 2), (CHR ''c'', 3)]"

definition get_value :: "pyval \<Rightarrow> error + int" where
  "get_value v =
     (case v of
        PStr s \<Rightarrow>
          (if length s \<noteq> 2 then Inl (InvalidCardString s)
           else (case map_of RANKS (s ! 0) of
                   None \<Rightarrow> Inl (InvalidRank (s ! 0))
                 | Some r \<Rightarrow>
                     (case map_of SUITS (s ! 1) of
                        None \<Rightarrow> Inl (InvalidSuit (s ! 1))
                      | Some u \<Rightarrow> Inr (r * 4 + u + 1))))
      | PInt n \<Rightarrow> (if \<not> (1 \<le> n \<and> n \<le> 52) then Inl (InvalidCardValue n) else Inr n)
      | PCard c \<Rightarrow> Inr (card_value c)
      | POther \<Rightarrow> Inl InvalidCardType)"

definition Card_init :: "pyval \<Rightarrow> error + card" where
  "Card_init v = (case get_value v of Inl e \<Rightarrow> Inl e | Inr n \<Rightarrow> Inr (Card n))"

text \<open>Python's \<^verbatim>\<open>xs[i]\<close>: a negative index counts from the end, out of range raises.\<close>

definition py_getitem :: "'a list \<Rightarrow> int \<Rightarrow> error + 'a" where
  "py_getitem xs i =
     (if 0 \<le> i \<and> i < int (length xs) then Inr (xs ! nat i)
      else if i < 0 \<and> - int (length xs) \<le> i then Inr (xs ! nat (int (length xs) + i))
      else Inl IndexError)"

definition card_str :: "card \<Rightarrow> error + string" where
  "card_str c =
     (let adj_val = card_value c - 1 in
      case py_getitem (map fst RANKS) (adj_val div 4) of
        Inl e \<Rightarrow> Inl e
      | Inr rank \<Rightarrow>
          (case py_getitem (map fst SUITS) (adj_val mod 4) of
             Inl e \<Rightarrow> Inl e
           | Inr suit \<Rightarrow> Inr [rank, suit]))"

section \<open>eval.py: HandEvaluator\<close>

definition HAND_TYPES :: "(int \<times> string) list" where
  "HAND_TYPES = [(1, ''High Card''), (2, ''One Pair''), (3, ''Two Pair''),
                 (4, ''Three of a Kind''), (5, ''Straight''), (6, ''Flush''),
                 (7, ''Full House''), (8, ''Four of a Kind''), (9, ''Straight Flush'')]"

text \<open>
  A list comprehension whose body may raise: the first failing element raises, as in
  \<^verbatim>\<open>[Card.get_value(card) for card in cards]\<close>.
\<close>

fun collect :: "('a \<Rightarrow> error + 'b) \<Rightarrow> 'a list \<Rightarrow> error + 'b list" where
  "collect f [] = Inr []"
| "collect f (x # xs) =
     (case f x of
        Inl e \<Rightarrow> Inl e
      | Inr v \<Rightarrow> (case collect f xs of Inl e \<Rightarrow> Inl e | Inr vs \<Rightarrow> Inr (v # vs)))"

text \<open>The table walk \<^verbatim>\<open>for c in vals: p = self.hand_ranks[p + c]\<close>.\<close>

fun walk :: "32 word list \<Rightarrow> int \<Rightarrow> int list \<Rightarrow> error + int" where
  "walk hand_ranks p [] = Inr p"
| "walk hand_ranks p (c # cs) =
     (case py_getitem hand_ranks (p + c) of
        Inl e \<Rightarrow> Inl e
      | Inr q \<Rightarrow> walk hand_ranks (uint q) cs)"

type_synonym evaluation = "int \<times> int \<times> int \<times> string"

definition evaluate_hand :: "32 word list \<Rightarrow> pyval list \<Rightarrow> error + evaluation" where
  "evaluate_hand hand_ranks cards =
     (case collect get_value cards of
        Inl e \<Rightarrow> Inl e
      | Inr vals \<Rightarrow>
          (if length vals \<noteq> 7 then Inl MustBeSevenCards
           else (case walk hand_ranks 53 vals of
                   Inl e \<Rightarrow> Inl e
                 | Inr p \<Rightarrow>
                     (let v = p;
                          hand_type = drop_bit 12 v;
                          hand_rank = v AND 0xFFF;
                          hand_name = (case map_of HAND_TYPES hand_type of
                                         None \<Rightarrow> ''Unknown'' | Some n \<Rightarrow> n)
                      in Inr (v, hand_rank, hand_type, hand_name)))))"

definition compare_hands ::
  "32 word list \<Rightarrow> pyval list \<Rightarrow> pyval list \<Rightarrow> pyval list \<Rightarrow>
     error + (int \<times> evaluation \<times> evaluation)" where
  "compare_hands hand_ranks hand1 hand2 board =
     (if length hand1 \<noteq> 2 \<or> length hand2 \<noteq> 2 then Inl HandSizeError
      else if length board \<noteq> 5 then Inl BoardSizeError
      else (case evaluate_hand hand_ranks (hand1 @ board) of
              Inl e \<Rightarrow> Inl e
            | Inr eval1 \<Rightarrow>
                (case evaluate_hand hand_ranks (hand2 @ board) of
                   Inl e \<Rightarrow> Inl e
                 | Inr eval2 \<Rightarrow>
                     (if fst eval1 > fst eval2 then Inr (1, eval1, eval2)
                      else if fst eval2 > fst eval1 then Inr (- 1, eval1, eval2)
                      else Inr (0, eval1, eval2)))))"


subsection \<open>Loading the lookup table\<close>

text \<open>
  The file system as far as \<^verbatim>\<open>HandEvaluator.__init__\<close> sees it: a path either does not
  exist or holds a sequence of bytes (\<^verbatim>\<open>os.path.exists\<close>, \<^verbatim>\<open>os.path.getsize\<close> and
  \<^verbatim>\<open>f.read()\<close> read the same file).
\<close>

type_synonym filesystem = "string \<rightharpoonup> 8 word list"

text \<open>
  One \<^verbatim>\<open>'I'\<close> item of \<^verbatim>\<open>struct.unpack\<close>: four bytes in the byte order of the machine
  (the format has no byte-order prefix), \<open>big_endian\<close> being \<^verbatim>\<open>sys.byteorder == 'big'\<close>.
\<close>

definition unpack_I :: "bool \<Rightarrow> 8 word list \<Rightarrow> 32 word" where
  "unpack_I big_endian bs =
     word_of_nat (foldr (\<lambda>b acc. unat b + 256 * acc) (if big_endian then rev bs else bs) 0)"

fun chunks4 :: "'a list \<Rightarrow> 'a list list" where
  "chunks4 (a # b # c # d # xs) = [a, b, c, d] # chunks4 xs"
| "chunks4 _ = []"

text \<open>
  \<^verbatim>\<open>struct.unpack('I' * n, buf)\<close>: the buffer must hold exactly \<open>4 * n\<close> bytes, or
  \<^verbatim>\<open>struct.error\<close> is raised.
\<close>

definition struct_unpack :: "bool \<Rightarrow> nat \<Rightarrow> 8 word list \<Rightarrow> error + 32 word list" where
  "struct_unpack big_endian n buf =
     (if length buf \<noteq> 4 * n then Inl StructError
      else Inr (map (unpack_I big_endian) (chunks4 buf)))"

definition HandEvaluator_init :: "bool \<Rightarrow> filesystem \<Rightarrow> string \<Rightarrow> error + 32 word list" where
  "HandEvaluator_init big_endian fs fname =
     (case fs fname of
        None \<Rightarrow> Inl (FileNotFound fname)
      | Some content \<Rightarrow> struct_unpack big_endian (length content div 4) content)"

section \<open>deck.py: Deck\<close>

text \<open>
  Deck objects live in a store: the address of a deck is its index, the entry is its
  \<^verbatim>\<open>cards\<close> list. \<^verbatim>\<open>Deck()\<close> builds the 52 cards suit by suit.
\<close>

type_synonym deck_store = "card list list"

definition Deck_new :: "error + card list" where
  "Deck_new =
     collect (\<lambda>(suit, rank). Card_init (PStr [rank, suit]))
       (List.product (map fst SUITS) (map fst RANKS))"

definition Deck_init :: "deck_store \<Rightarrow> error + (deck_store \<times> nat)" where
  "Deck_init ds = (case Deck_new of Inl e \<Rightarrow> Inl e | Inr cs \<Rightarrow> Inr (ds @ [cs], length ds))"

text \<open>
  \<^verbatim>\<open>random.shuffle\<close> of the standard library: for \<open>i\<close> from \<open>len - 1\<close> down to 1, swap
  \<open>x[i]\<close> with \<open>x[j]\<close> for a random \<open>j \<le> i\<close>. The random source is a list of raw draws,
  consumed from the front (an exhausted source draws 0), so every theorem below holds for
  every outcome of the shuffle.
\<close>

type_synonym rng = "nat list"

fun randbelow :: "nat \<Rightarrow> rng \<Rightarrow> nat \<times> rng" where
  "randbelow n [] = (0, [])"
| "randbelow n (r # rs) = (r mod n, rs)"

fun shuffle_loop :: "nat \<Rightarrow> 'a list \<Rightarrow> rng \<Rightarrow> 'a list \<times> rng" where
  "shuffle_loop 0 xs g = (xs, g)"
| "shuffle_loop (Suc k) xs g =
     (let (j, g') = randbelow (Suc k + 1) g
      in shuffle_loop k (xs[Suc k := xs ! j, j := xs ! Suc k]) g')"

definition random_shuffle :: "'a list \<Rightarrow> rng \<Rightarrow> 'a list \<times> rng" where
  "random_shuffle xs g = shuffle_loop (length xs - 1) xs g"

definition Deck_shuffle :: "deck_store \<Rightarrow> nat \<Rightarrow> rng \<Rightarrow> deck_store \<times> rng" where
  "Deck_shuffle ds d g = (let (xs, g') = random_shuffle (ds ! d) g in (ds[d := xs], g'))"

text \<open>The slices \<^verbatim>\<open>xs[:n]\<close> and \<^verbatim>\<open>xs[n:]\<close>; a negative bound counts from the end.\<close>

definition py_take :: "int \<Rightarrow> 'a list \<Rightarrow> 'a list" where
  "py_take n xs = (if 0 \<le> n then take (nat n) xs else take (nat (int (length xs) + n)) xs)"

definition py_drop :: "int \<Rightarrow> 'a list \<Rightarrow> 'a list" where
  "py_drop n xs = (if 0 \<le> n then drop (nat n) xs else drop (nat (int (length xs) + n)) xs)"

definition Deck_deal :: "deck_store \<Rightarrow> nat \<Rightarrow> int \<Rightarrow> error + (deck_store \<times> card list)" where
  "Deck_deal ds d n =
     (if n > int (length (ds ! d)) then Inl NotEnoughCards
      else (let dealt = py_take n (ds ! d)
            in Inr (ds[d := py_drop n (ds ! d)], dealt)))"

definition Deck_copy :: "deck_store \<Rightarrow> nat \<Rightarrow> error + (deck_store \<times> nat)" where
  "Deck_copy ds d =
     (case Deck_init ds of
        Inl e \<Rightarrow> Inl e
      | Inr (ds1, deck) \<Rightarrow>
          (case collect (\<lambda>c. Card_init (PInt (card_value c))) (ds1 ! d) of
             Inl e \<Rightarrow> Inl e
           | Inr cs \<Rightarrow> Inr (ds1[deck := cs], deck)))"

section \<open>bot.py: the scenario sampler\<close>

type_synonym scenario = "card list \<times> card list"

record pokerbot =
  bot_hand :: "pyval list"
  bot_board :: "pyval list"
  bot_deck :: "nat option"
  bot_root :: nat

text \<open>
  \<^verbatim>\<open>PokerBot.generate_scenario\<close>. \<^verbatim>\<open>not self.deck\<close> holds for \<^verbatim>\<open>None\<close> and for a deck
  of length 0. The result carries the deck store and the random source as the call leaves
  them, also when \<^verbatim>\<open>deal\<close> raises.
\<close>

definition generate_scenario ::
  "deck_store \<Rightarrow> pokerbot \<Rightarrow> rng \<Rightarrow> deck_store \<times> rng \<times> (error + scenario option)" where
  "generate_scenario ds self g =
     (case bot_deck self of
        None \<Rightarrow> (ds, g, Inr None)
      | Some d \<Rightarrow>
          (if length (ds ! d) = 0 \<or> length (ds ! d) < 2 then (ds, g, Inr None)
           else (case Deck_copy ds d of
                   Inl e \<Rightarrow> (ds, g, Inl e)
                 | Inr (ds1, deck_copy) \<Rightarrow>
                     (let (ds2, g') = Deck_shuffle ds1 deck_copy g in
                      case Deck_deal ds2 deck_copy 2 of
                        Inl e \<Rightarrow> (ds2, g', Inl e)
                      | Inr (ds3, op_hand) \<Rightarrow>
                          (let needed = 5 - int (length (bot_board self)) in
                           if needed > 0 then
                             (case Deck_deal ds3 deck_copy needed of
                                Inl e \<Rightarrow> (ds3, g', Inl e)
                              | Inr (ds4, new_board) \<Rightarrow>
                                  (ds4, g', Inr (Some (op_hand, new_board))))
                           else (ds3, g', Inr (Some (op_hand, []))))))))"

section \<open>bot.py: MCTSNode\<close>

text \<open>
  Node objects live in a store: the address of a node is its index, \<open>parent\<close> and the
  values of \<open>children\<close> are addresses. \<open>children\<close> is the dictionary from scenario key to
  child, in insertion order (the order \<^verbatim>\<open>dict.values()\<close> iterates in).
\<close>

record node =
  hand :: "pyval list"
  board :: "pyval list"
  parent :: "nat option"
  scenario :: "scenario option"
  visits :: int
  wins :: int
  children :: "(int \<times> nat) list"

type_synonym node_store = "node list"

definition MCTSNode_init ::
  "pyval list \<Rightarrow> pyval list \<Rightarrow> nat option \<Rightarrow> scenario option \<Rightarrow> node" where
  "MCTSNode_init h b p s =
     \<lparr>hand = h, board = b, parent = p, scenario = s, visits = 0, wins = 0, children = []\<rparr>"

text \<open>
  A UCB1 score is a float: here a real number or \<^verbatim>\<open>float('inf')\<close>. \<open>score_gt\<close> is
  Python's \<^verbatim>\<open>>\<close> on them.
\<close>

datatype score = Finite real | Infinity

fun score_gt :: "score \<Rightarrow> score \<Rightarrow> bool" where
  "score_gt (Finite a) (Finite b) = (a > b)"
| "score_gt Infinity (Finite b) = True"
| "score_gt (Finite a) Infinity = False"
| "score_gt Infinity Infinity = False"

text \<open>
  \<^verbatim>\<open>MCTSNode.ucb1\<close>. \<^verbatim>\<open>math.log\<close> raises \<^verbatim>\<open>ValueError\<close> on an argument that is not
  positive, \<^verbatim>\<open>math.sqrt\<close> on a negative one.
\<close>

definition ucb1 :: "node_store \<Rightarrow> nat \<Rightarrow> real \<Rightarrow> error + score" where
  "ucb1 ns self c =
     (if visits (ns ! self) = 0 then Inr Infinity
      else (let exploitation = real_of_int (wins (ns ! self)) / real_of_int (visits (ns ! self))
            in case parent (ns ! self) of
                 None \<Rightarrow> Inr (Finite exploitation)
               | Some p \<Rightarrow>
                   (if visits (ns ! p) \<le> 0 then Inl MathDomainError
                    else (let q = ln (real_of_int (visits (ns ! p)))
                                    / real_of_int (visits (ns ! self))
                          in if q < 0 then Inl MathDomainError
                             else Inr (Finite (exploitation + c * sqrt q))))))"

text \<open>
  \<^verbatim>\<open>max(iterable, key=f)\<close>: the first item is the candidate, a later item replaces it only
  when its key is greater, so the first maximal item wins. An empty iterable raises
  \<^verbatim>\<open>ValueError\<close>.
\<close>

fun max_loop :: "('a \<Rightarrow> error + score) \<Rightarrow> 'a \<Rightarrow> score \<Rightarrow> 'a list \<Rightarrow> error + 'a" where
  "max_loop key best best_key [] = Inr best"
| "max_loop key best best_key (x # xs) =
     (case key x of
        Inl e \<Rightarrow> Inl e
      | Inr k \<Rightarrow> (if score_gt k best_key then max_loop key x k xs
                  else max_loop key best best_key xs))"

definition py_max :: "('a \<Rightarrow> error + score) \<Rightarrow> 'a list \<Rightarrow> error + 'a" where
  "py_max key xs =
     (case xs of
        [] \<Rightarrow> Inl EmptySequence
      | x # rest \<Rightarrow> (case key x of Inl e \<Rightarrow> Inl e | Inr k \<Rightarrow> max_loop key x k rest))"

definition select_child :: "node_store \<Rightarrow> nat \<Rightarrow> real \<Rightarrow> error + nat" where
  "select_child ns self c =
     (if children (ns ! self) = [] then Inr self
      else py_max (\<lambda>n. ucb1 ns n c) (map snd (children (ns ! self))))"

section \<open>bot.py: PokerBot\<close>

text \<open>
  What a decision mutates: the node store, the deck store and the random source.
  \<open>PokerBot_init\<close> allocates the root node.
\<close>

record world =
  nodes :: node_store
  decks :: deck_store
  rand :: rng

definition PokerBot_init ::
  "world \<Rightarrow> pyval list \<Rightarrow> pyval list \<Rightarrow> nat option \<Rightarrow> world \<times> pokerbot" where
  "PokerBot_init w h b d =
     (w\<lparr>nodes := nodes w @ [MCTSNode_init h b None None]\<rparr>,
      \<lparr>bot_hand = h, bot_board = b, bot_deck = d, bot_root = length (nodes w)\<rparr>)"

text \<open>
  \<^verbatim>\<open>PokerBot.select\<close>: the loop follows child addresses and need not terminate on an
  arbitrary store, so not returning is the value \<open>None\<close>. It calls \<^verbatim>\<open>select_child()\<close>
  with the default \<open>c = 1.414\<close>.
\<close>

partial_function (option) select_loop :: "node_store \<Rightarrow> nat \<Rightarrow> (error + nat) option" where
  "select_loop ns node =
     (if children (ns ! node) \<noteq> [] then
        (case select_child ns node 1.414 of
           Inl e \<Rightarrow> Some (Inl e)
         | Inr n \<Rightarrow> select_loop ns n)
      else Some (Inr node))"

definition select :: "pokerbot \<Rightarrow> node_store \<Rightarrow> (error + nat) option" where
  "select self ns = select_loop ns (bot_root self)"

text \<open>
  The scenario key \<^verbatim>\<open>hash((frozenset(scenario[0]), frozenset(scenario[1])))\<close>. Cards are
  equal and hash by value, so the two frozensets are the sets of cards; \<open>H\<close> is Python's hash
  of a pair of such sets.
\<close>

type_synonym hash_fn = "card set \<times> card set \<Rightarrow> int"

definition scenario_key :: "hash_fn \<Rightarrow> scenario \<Rightarrow> int" where
  "scenario_key H sc = H (set (fst sc), set (snd sc))"

definition expand :: "hash_fn \<Rightarrow> pokerbot \<Rightarrow> world \<Rightarrow> nat \<Rightarrow> error + (world \<times> nat)" where
  "expand H self w node =
     (let (ds, g, r) = generate_scenario (decks w) self (rand w);
          w1 = w\<lparr>decks := ds, rand := g\<rparr>
      in case r of
           Inl e \<Rightarrow> Inl e
         | Inr None \<Rightarrow> Inr (w1, node)
         | Inr (Some sc) \<Rightarrow>
             (let key = scenario_key H sc in
              case map_of (children (nodes w1 ! node)) key of
                Some ch \<Rightarrow> Inr (w1, ch)
              | None \<Rightarrow>
                  (let child = MCTSNode_init (hand (nodes w1 ! node)) (board (nodes w1 ! node))
                                 (Some node) (Some sc);
                       addr = length (nodes w1);
                       ns1 = nodes w1 @ [child];
                       ns2 = ns1[node := (ns1 ! node)
                                   \<lparr>children := children (ns1 ! node) @ [(key, addr)]\<rparr>]
                   in Inr (w1\<lparr>nodes := ns2\<rparr>, addr))))"

definition simulate ::
  "32 word list \<Rightarrow> pokerbot \<Rightarrow> world \<Rightarrow> nat \<Rightarrow> error + (world \<times> int)" where
  "simulate hand_ranks self w node =
     (let play = (\<lambda>w' sc.
            case compare_hands hand_ranks (bot_hand self) (map PCard (fst sc))
                   (bot_board self @ map PCard (snd sc)) of
              Inl e \<Rightarrow> Inl e
            | Inr (result, eval1, eval2) \<Rightarrow> Inr (w', if result = 1 then 1 else 0))
      in case scenario (nodes w ! node) of
           Some sc \<Rightarrow> play w sc
         | None \<Rightarrow>
             (let (ds, g, r) = generate_scenario (decks w) self (rand w);
                  w1 = w\<lparr>decks := ds, rand := g\<rparr>
              in case r of
                   Inl e \<Rightarrow> Inl e
                 | Inr None \<Rightarrow> Inr (w1, 0)
                 | Inr (Some sc) \<Rightarrow> play w1 sc))"

text \<open>
  \<^verbatim>\<open>PokerBot.backpropagate\<close>: the loop follows parent addresses up to \<^verbatim>\<open>None\<close>; on a
  store with a cycle of parents it does not return.
\<close>

partial_function (option) backpropagate ::
  "node_store \<Rightarrow> nat option \<Rightarrow> int \<Rightarrow> node_store option" where
  "backpropagate ns node result =
     (case node of
        None \<Rightarrow> Some ns
      | Some a \<Rightarrow>
          backpropagate
            (ns[a := (ns ! a)\<lparr>visits := visits (ns ! a) + 1, wins := wins (ns ! a) + result\<rparr>])
            (parent (ns ! a)) result)"

text \<open>One iteration of the loop of \<^verbatim>\<open>PokerBot.search\<close>.\<close>

definition search_step ::
  "hash_fn \<Rightarrow> 32 word list \<Rightarrow> pokerbot \<Rightarrow> world \<Rightarrow> (error + world) option" where
  "search_step H hand_ranks self w =
     (case select self (nodes w) of
        None \<Rightarrow> None
      | Some (Inl e) \<Rightarrow> Some (Inl e)
      | Some (Inr leaf0) \<Rightarrow>
          (case (if visits (nodes w ! leaf0) > 0 then expand H self w leaf0 else Inr (w, leaf0)) of
             Inl e \<Rightarrow> Some (Inl e)
           | Inr (w1, leaf) \<Rightarrow>
               (case simulate hand_ranks self w1 leaf of
                  Inl e \<Rightarrow> Some (Inl e)
                | Inr (w2, result) \<Rightarrow>
                    (case backpropagate (nodes w2) (Some leaf) result of
                       None \<Rightarrow> None
                     | Some ns \<Rightarrow> Some (Inr (w2\<lparr>nodes := ns\<rparr>))))))"

text \<open>
  The loop \<^verbatim>\<open>while time.time() - start_time < time_limit\<close> runs as long as the clock allows:
  \<open>n\<close> is the number of times the clock let the condition hold. An exception ends the search.
\<close>

fun search_loop ::
  "hash_fn \<Rightarrow> 32 word list \<Rightarrow> pokerbot \<Rightarrow> nat \<Rightarrow> world \<Rightarrow> (error + world) option" where
  "search_loop H hand_ranks self 0 w = Some (Inr w)"
| "search_loop H hand_ranks self (Suc n) w =
     (case search_step H hand_ranks self w of
        None \<Rightarrow> None
      | Some (Inl e) \<Rightarrow> Some (Inl e)
      | Some (Inr w') \<Rightarrow> search_loop H hand_ranks self n w')"

definition win_prob :: "pokerbot \<Rightarrow> world \<Rightarrow> real" where
  "win_prob self w =
     (if visits (nodes w ! bot_root self) > 0
      then real_of_int (wins (nodes w ! bot_root self))
             / real_of_int (visits (nodes w ! bot_root self))
      else 0)"

definition search ::
  "hash_fn \<Rightarrow> 32 word list \<Rightarrow> pokerbot \<Rightarrow> nat \<Rightarrow> world \<Rightarrow> (error + (world \<times> real)) option" where
  "search H hand_ranks self n w =
     (case search_loop H hand_ranks self n w of
        None \<Rightarrow> None
      | Some (Inl e) \<Rightarrow> Some (Inl e)
      | Some (Inr w') \<Rightarrow> Some (Inr (w', win_prob self w')))"

definition make_decision ::
  "hash_fn \<Rightarrow> 32 word list \<Rightarrow> pokerbot \<Rightarrow> nat \<Rightarrow> real \<Rightarrow> world \<Rightarrow>
     (error + (world \<times> string)) option" where
  "make_decision H hand_ranks self n threshold w =
     (case search H hand_ranks self n w of
        None \<Rightarrow> None
      | Some (Inl e) \<Rightarrow> Some (Inl e)
      | Some (Inr (w', p)) \<Rightarrow>
          (let decision = (if p \<ge> threshold then ''STAY'' else ''FOLD'')
           in Some (Inr (w', decision))))"

section \<open>Well-formed trees\<close>

text \<open>
  The shape of every store the bot builds: a parent was allocated before its child, and
  every entry of a \<open>children\<close> dictionary is the address of a node whose parent link points
  back.
\<close>

definition wf_tree :: "node_store \<Rightarrow> bool" where
  "wf_tree ns \<longleftrightarrow>
     (\<forall>a < length ns.
        (\<forall>p. parent (ns ! a) = Some p \<longrightarrow> p < a) \<and>
        (\<forall>c \<in> snd ` set (children (ns ! a)). a < c \<and> c < length ns \<and> parent (ns ! c) = Some a))"

text \<open>The statistics invariant: wins between 0 and visits, a child visited no more than its parent.\<close>

definition stats_ok :: "node_store \<Rightarrow> bool" where
  "stats_ok ns \<longleftrightarrow>
     (\<forall>a < length ns.
        0 \<le> wins (ns ! a) \<and> wins (ns ! a) \<le> visits (ns ! a) \<and>
        (\<forall>p. parent (ns ! a) = Some p \<longrightarrow> visits (ns ! a) \<le> visits (ns ! p)))"

text \<open>The nodes on the path from a node up to the root, following parent links.\<close>

inductive on_path :: "node_store \<Rightarrow> nat \<Rightarrow> nat \<Rightarrow> bool" for ns :: node_store and a :: nat where
  on_path_self: "on_path ns a a"
| on_path_up: "on_path ns a b \<Longrightarrow> parent (ns ! b) = Some p \<Longrightarrow> on_path ns a p"

text \<open>One step of the descent of \<^verbatim>\<open>select\<close>: from a node with children to the child it picks.\<close>

definition select_step :: "node_store \<Rightarrow> nat \<Rightarrow> nat \<Rightarrow> bool" where
  "select_step ns a b \<longleftrightarrow> children (ns ! a) \<noteq> [] \<and> select_child ns a 1.414 = Inr b"

section \<open>A small run\<close>

text \<open>
  Inputs for evaluating the search on a concrete case: a table on which a hand holding
  card 52 evaluates to 200 and any other hand to 53, a bot holding cards 51 and 52 on a board
  of three cards with four cards left in the deck, and the worlds the first two iterations
  of the search go through.
\<close>

abbreviation ex_table :: "32 word list" where
  "ex_table \<equiv> map (\<lambda>i. if i = 105 \<or> 200 \<le> i then 200 else 53) [0..<253]"

abbreviation ex_bot :: pokerbot where
  "ex_bot \<equiv> \<lparr>bot_hand = [PInt 51, PInt 52], bot_board = [PInt 7, PInt 8, PInt 9],
              bot_deck = Some 0, bot_root = 0\<rparr>"

abbreviation ex_root :: "int \<Rightarrow> int \<Rightarrow> (int \<times> nat) list \<Rightarrow> node" where
  "ex_root v w cs \<equiv> \<lparr>hand = [PInt 51, PInt 52], board = [PInt 7, PInt 8, PInt 9],
                      parent = None, scenario = None, visits = v, wins = w, children = cs\<rparr>"

abbreviation ex_child :: "int \<Rightarrow> int \<Rightarrow> node" where
  "ex_child v w \<equiv> \<lparr>hand = [PInt 51, PInt 52], board = [PInt 7, PInt 8, PInt 9],
                    parent = Some 0, scenario = Some ([Card 2, Card 4], [Card 3, Card 1]),
                    visits = v, wins = w, children = []\<rparr>"

abbreviation ex_deck :: "card list" where
  "ex_deck \<equiv> [Card 1, Card 2, Card 3, Card 4]"

abbreviation ex_w0 :: world where
  "ex_w0 \<equiv> \<lparr>nodes = [ex_root 0 0 []], decks = [ex_deck], rand = [1, 2, 3, 4, 5, 6, 7, 8, 9]\<rparr>"

abbreviation ex_w1 :: world where
  "ex_w1 \<equiv> \<lparr>nodes = [ex_root 1 1 []], decks = [ex_deck, []], rand = [4, 5, 6, 7, 8, 9]\<rparr>"

abbreviation ex_w2 :: world where
  "ex_w2 \<equiv> \<lparr>nodes = [ex_root 2 2 [(42, 1)], ex_child 1 1], decks = [ex_deck, [], []],
             rand = [7, 8, 9]\<rparr>"

text \<open>
  A hash that is injective on the pairs of finite sets of cards with values from 0 on: both
  sets are encoded as binary numbers and the two numbers are paired.
\<close>

abbreviation ex_hash :: hash_fn where
  "ex_hash \<equiv> \<lambda>(A, B). int (prod_encode (set_encode ((\<lambda>c. nat (card_value c)) ` A),
                                            set_encode ((\<lambda>c. nat (card_value c)) ` B)))"

abbreviation ex_dom :: "(card set \<times> card set) set" where
  "ex_dom \<equiv> {(A, B). finite A \<and> finite B \<and> (\<forall>c \<in> A \<union> B. 0 \<le> card_value c)}"

section \<open>Card codes\<close>

lemma rank_cases: "r \<in> set ''23456789TJQKA'' \<Longrightarrow> \<exists>ri. map_of RANKS r = Some ri \<and> 0 \<le> ri \<and> ri \<le> 12 \<and> py_getitem (map fst RANKS) ri = Inr r"
  by (auto simp: RANKS_def py_getitem_def)

lemma suit_cases: "s \<in> set ''shdc'' \<Longrightarrow> \<exists>si. map_of SUITS s = Some si \<and> 0 \<le> si \<and> si \<le> 3 \<and> py_getitem (map fst SUITS) si = Inr s"
  by (auto simp: SUITS_def py_getitem_def)

lemma rank_none: "r \<notin> set ''23456789TJQKA'' \<Longrightarrow> map_of RANKS r = None"
  by (simp add: RANKS_def)

lemma suit_none: "s \<notin> set ''shdc'' \<Longrightarrow> map_of SUITS s = None"
  by (simp add: SUITS_def)

text \<open>
  Claim C8. Every valid two-character code (a rank of \<^verbatim>\<open>23456789TJQKA\<close> followed by a
  suit of \<^verbatim>\<open>shdc\<close>) constructs a card whose value is \<open>rank_index * 4 + suit_index + 1\<close>,
  lies in \<open>[1, 52]\<close>, and whose string code is the code it was built from, so building a
  card from that string gives the same card again. A code with an invalid rank or suit, a
  string of another length, and an integer outside \<open>[1, 52]\<close> are rejected by the
  constructor.
\<close>

theorem card_code_roundtrip:
  "(r \<in> set ''23456789TJQKA'' \<and> s \<in> set ''shdc'' \<longrightarrow>
      (\<exists>ri si. map_of RANKS r = Some ri \<and> map_of SUITS s = Some si \<and>
         Card_init (PStr [r, s]) = Inr (Card (ri * 4 + si + 1)) \<and>
         1 \<le> ri * 4 + si + 1 \<and> ri * 4 + si + 1 \<le> 52 \<and>
         card_str (Card (ri * 4 + si + 1)) = Inr [r, s]))
   \<and> (r' \<notin> set ''23456789TJQKA'' \<longrightarrow> Card_init (PStr [r', s']) = Inl (InvalidRank r'))
   \<and> (r' \<in> set ''23456789TJQKA'' \<and> s' \<notin> set ''shdc'' \<longrightarrow>
        Card_init (PStr [r', s']) = Inl (InvalidSuit s'))
   \<and> (length code \<noteq> 2 \<longrightarrow> Card_init (PStr code) = Inl (InvalidCardString code))
   \<and> (\<not> (1 \<le> n \<and> n \<le> 52) \<longrightarrow> Card_init (PInt n) = Inl (InvalidCardValue n))"
proof (intro conjI impI)
  assume a: "r \<in> set ''23456789TJQKA'' \<and> s \<in> set ''shdc''"
  obtain ri where ri: "map_of RANKS r = Some ri" "0 \<le> ri" "ri \<le> 12"
      "py_getitem (map fst RANKS) ri = Inr r"
    using rank_cases a by blast
  obtain si where si: "map_of SUITS s = Some si" "0 \<le> si" "si \<le> 3"
      "py_getitem (map fst SUITS) si = Inr s"
    using suit_cases a by blast
  have d: "(ri * 4 + si + 1 - 1) div 4 = ri" "(ri * 4 + si + 1 - 1) mod 4 = si"
    using si by auto
  have "Card_init (PStr [r, s]) = Inr (Card (ri * 4 + si + 1))"
    by (simp add: Card_init_def get_value_def ri si)
  moreover have "card_str (Card (ri * 4 + si + 1)) = Inr [r, s]"
    unfolding card_str_def Let_def card.sel d by (simp add: ri si)
  ultimately show "\<exists>ri si. map_of RANKS r = Some ri \<and> map_of SUITS s = Some si \<and>
         Card_init (PStr [r, s]) = Inr (Card (ri * 4 + si + 1)) \<and>
         1 \<le> ri * 4 + si + 1 \<and> ri * 4 + si + 1 \<le> 52 \<and>
         card_str (Card (ri * 4 + si + 1)) = Inr [r, s]"
    using ri si by auto
next
  assume "r' \<notin> set ''23456789TJQKA''"
  then show "Card_init (PStr [r', s']) = Inl (InvalidRank r')"
    by (simp add: Card_init_def get_value_def rank_none)
next
  assume a: "r' \<in> set ''23456789TJQKA'' \<and> s' \<notin> set ''shdc''"
  then obtain ri where "map_of RANKS r' = Some ri" using rank_cases by blast
  then show "Card_init (PStr [r', s']) = Inl (InvalidSuit s')"
    using a by (simp add: Card_init_def get_value_def suit_none)
next
  assume "length code \<noteq> 2"
  then show "Card_init (PStr code) = Inl (InvalidCardString code)"
    by (simp add: Card_init_def get_value_def)
next
  assume "\<not> (1 \<le> n \<and> n \<le> 52)"
  then show "Card_init (PInt n) = Inl (InvalidCardValue n)"
    by (simp add: Card_init_def get_value_def)
qed

theorem card_code_roundtrip_witness:
  "Card_init (PStr ''As'') = Inr (Card 49) \<and> card_str (Card 49) = Inr ''As''
   \<and> Card_init (PStr ''Xs'') = Inl (InvalidRank (CHR ''X''))
   \<and> Card_init (PStr ''Ax'') = Inl (InvalidSuit (CHR ''x''))
   \<and> Card_init (PStr ''10s'') = Inl (InvalidCardString ''10s'')
   \<and> Card_init (PInt 53) = Inl (InvalidCardValue 53)"
  using card_code_roundtrip [of "CHR ''A''" "CHR ''s''" "CHR ''X''" "CHR ''s''" "''10s''" 53]
        card_code_roundtrip [of "CHR ''A''" "CHR ''s''" "CHR ''A''" "CHR ''x''" "''10s''" 53]
  by (auto simp: RANKS_def SUITS_def)

section \<open>Evaluator input sizes\<close>

lemma collect_length: "collect f xs = Inr vs \<Longrightarrow> length vs = length xs"
  by (induction xs arbitrary: vs) (auto split: sum.splits)

lemma get_value_error: "get_value v = Inl e \<Longrightarrow> is_ValueError e"
  by (auto simp: get_value_def split: pyval.splits if_splits option.splits)

lemma collect_get_value_error: "collect get_value cs = Inl e \<Longrightarrow> is_ValueError e"
  by (induction cs) (auto split: sum.splits dest: get_value_error)

lemma collect_all_convert:
  "\<forall>x \<in> set xs. \<exists>v. f x = Inr v \<Longrightarrow> \<exists>vs. collect f xs = Inr vs"
  by (induction xs) auto

text \<open>
  Claim C7. \<^verbatim>\<open>evaluate_hand\<close> fails with the size error for every list of cards (a list
  whose elements \<^verbatim>\<open>Card.get_value\<close> accepts) whose length is not 7, and it fails with a
  \<^verbatim>\<open>ValueError\<close> for every input whatsoever whose length is not 7. \<^verbatim>\<open>compare_hands\<close>
  fails with the hand-size error when either hand's length is not 2, and with the board-size
  error when both hands have length 2 and the board's length is not 5.
\<close>

theorem evaluator_size_enforcement:
  "(length cards \<noteq> 7 \<and> (\<forall>c \<in> set cards. \<exists>v. get_value c = Inr v) \<longrightarrow>
      evaluate_hand hand_ranks cards = Inl MustBeSevenCards)
   \<and> (length cards \<noteq> 7 \<longrightarrow>
        (\<exists>e. evaluate_hand hand_ranks cards = Inl e \<and> is_ValueError e))
   \<and> (length hand1 \<noteq> 2 \<or> length hand2 \<noteq> 2 \<longrightarrow>
        compare_hands hand_ranks hand1 hand2 brd = Inl HandSizeError)
   \<and> (length hand1 = 2 \<and> length hand2 = 2 \<and> length brd \<noteq> 5 \<longrightarrow>
        compare_hands hand_ranks hand1 hand2 brd = Inl BoardSizeError)"
proof (intro conjI impI)
  assume a: "length cards \<noteq> 7 \<and> (\<forall>c \<in> set cards. \<exists>v. get_value c = Inr v)"
  then obtain vals where v: "collect get_value cards = Inr vals"
    using collect_all_convert [of cards get_value] by blast
  then have "length vals \<noteq> 7" using a collect_length [OF v] by simp
  then show "evaluate_hand hand_ranks cards = Inl MustBeSevenCards"
    using v by (simp add: evaluate_hand_def)
next
  assume n: "length cards \<noteq> 7"
  show "\<exists>e. evaluate_hand hand_ranks cards = Inl e \<and> is_ValueError e"
  proof (cases "collect get_value cards")
    case (Inl e)
    then show ?thesis by (simp add: evaluate_hand_def collect_get_value_error)
  next
    case (Inr vals)
    then show ?thesis using n collect_length [OF Inr] by (simp add: evaluate_hand_def)
  qed
next
  assume "length hand1 \<noteq> 2 \<or> length hand2 \<noteq> 2"
  then show "compare_hands hand_ranks hand1 hand2 brd = Inl HandSizeError"
    by (auto simp: compare_hands_def)
next
  assume "length hand1 = 2 \<and> length hand2 = 2 \<and> length brd \<noteq> 5"
  then show "compare_hands hand_ranks hand1 hand2 brd = Inl BoardSizeError"
    by (simp add: compare_hands_def)
qed

theorem evaluator_size_enforcement_witness:
  "evaluate_hand [] [PStr ''As'', PInt 3] = Inl MustBeSevenCards
   \<and> evaluate_hand [] [PInt 1, PInt 2, PInt 3, PInt 4, PInt 5, PInt 6, PInt 7, PStr ''Kd'']
       = Inl MustBeSevenCards
   \<and> compare_hands [] [PInt 1] [PInt 2, PInt 3] [] = Inl HandSizeError
   \<and> compare_hands [] [PInt 1, PInt 4] [PInt 2, PInt 3] [PInt 5] = Inl BoardSizeError"
proof -
  have v2: "\<forall>c \<in> set [PStr ''As'', PInt 3]. \<exists>v. get_value c = Inr v"
    by (simp add: get_value_def RANKS_def SUITS_def)
  have v8: "\<forall>c \<in> set [PInt 1, PInt 2, PInt 3, PInt 4, PInt 5, PInt 6, PInt 7, PStr ''Kd''].
              \<exists>v. get_value c = Inr v"
    by (simp add: get_value_def RANKS_def SUITS_def)
  have "evaluate_hand [] [PStr ''As'', PInt 3] = Inl MustBeSevenCards"
    using evaluator_size_enforcement [of "[PStr ''As'', PInt 3]" "[]" "[PInt 1]" "[PInt 2, PInt 3]" "[]"]
      v2 by simp
  moreover have "evaluate_hand []
      [PInt 1, PInt 2, PInt 3, PInt 4, PInt 5, PInt 6, PInt 7, PStr ''Kd''] = Inl MustBeSevenCards"
    using evaluator_size_enforcement
      [of "[PInt 1, PInt 2, PInt 3, PInt 4, PInt 5, PInt 6, PInt 7, PStr ''Kd'']" "[]"
          "[PInt 1]" "[PInt 2, PInt 3]" "[]"] v8
    by simp
  moreover have "compare_hands [] [PInt 1] [PInt 2, PInt 3] [] = Inl HandSizeError"
    using evaluator_size_enforcement [of "[PStr ''As'', PInt 3]" "[]" "[PInt 1]" "[PInt 2, PInt 3]" "[]"]
    by simp
  moreover have "compare_hands [] [PInt 1, PInt 4] [PInt 2, PInt 3] [PInt 5] = Inl BoardSizeError"
    using evaluator_size_enforcement
      [of "[PStr ''As'', PInt 3]" "[]" "[PInt 1, PInt 4]" "[PInt 2, PInt 3]" "[PInt 5]"]
    by simp
  ultimately show ?thesis by simp
qed

section \<open>Loading the table\<close>

lemma length_chunks4: "length (chunks4 xs) = length xs div 4"
  by (induction xs rule: chunks4.induct) auto

lemma chunks4_nth:
  "i < length xs div 4 \<Longrightarrow> chunks4 xs ! i = take 4 (drop (4 * i) xs)"
proof (induction xs arbitrary: i rule: chunks4.induct)
  case (1 a b c d xs)
  have d: "\<And>n. drop (4 + n) (a # b # c # d # xs) = drop n xs"
    by (simp add: eval_nat_numeral)
  show ?case using 1 by (cases i) (auto simp: d)
qed auto

text \<open>
  Claim C3. Constructing the evaluator fails with \<^verbatim>\<open>FileNotFoundError\<close> when the file is
  missing, and with \<^verbatim>\<open>struct.error\<close> when its size in bytes is not a multiple of 4.
  Otherwise the whole content is loaded as a flat list of unsigned 32-bit entries, as many as
  the byte length divided by 4, entry \<open>i\<close> being the four bytes at offset \<open>4 * i\<close>.
\<close>

theorem table_load:
  "(fs fname = None \<longrightarrow> HandEvaluator_init be fs fname = Inl (FileNotFound fname))
   \<and> (fs fname = Some content \<and> \<not> 4 dvd length content \<longrightarrow>
        HandEvaluator_init be fs fname = Inl StructError)
   \<and> (fs fname = Some content \<and> 4 dvd length content \<longrightarrow>
        (\<exists>hand_ranks. HandEvaluator_init be fs fname = Inr hand_ranks \<and>
           length hand_ranks = length content div 4 \<and>
           (\<forall>i < length hand_ranks.
              hand_ranks ! i = unpack_I be (take 4 (drop (4 * i) content)))))"
proof (intro conjI impI)
  assume "fs fname = None"
  then show "HandEvaluator_init be fs fname = Inl (FileNotFound fname)"
    by (simp add: HandEvaluator_init_def)
next
  assume a: "fs fname = Some content \<and> \<not> 4 dvd length content"
  then have "\<not> 4 dvd length content" by simp
  then have "length content \<noteq> 4 * (length content div 4)" by presburger
  then show "HandEvaluator_init be fs fname = Inl StructError"
    using a by (simp add: HandEvaluator_init_def struct_unpack_def)
next
  assume a: "fs fname = Some content \<and> 4 dvd length content"
  then have "4 dvd length content" by simp
  then have "length content = 4 * (length content div 4)" by presburger
  then have "HandEvaluator_init be fs fname = Inr (map (unpack_I be) (chunks4 content))"
    using a by (simp add: HandEvaluator_init_def struct_unpack_def)
  then show "\<exists>hand_ranks. HandEvaluator_init be fs fname = Inr hand_ranks \<and>
           length hand_ranks = length content div 4 \<and>
           (\<forall>i < length hand_ranks.
              hand_ranks ! i = unpack_I be (take 4 (drop (4 * i) content)))"
    by (simp add: length_chunks4 chunks4_nth)
qed

theorem table_load_witness:
  "HandEvaluator_init False Map.empty ''HandRanks.dat'' = Inl (FileNotFound ''HandRanks.dat'')
   \<and> HandEvaluator_init False [''t'' \<mapsto> [1, 2, 3, 4, 5]] ''t'' = Inl StructError
   \<and> (\<exists>hand_ranks. HandEvaluator_init False [''u'' \<mapsto> [1, 0, 0, 0, 2, 1, 0, 0]] ''u'' = Inr hand_ranks
        \<and> length hand_ranks = 2 \<and> hand_ranks ! 0 = 1 \<and> hand_ranks ! 1 = 258)"
proof -
  have 1: "HandEvaluator_init False Map.empty ''HandRanks.dat'' = Inl (FileNotFound ''HandRanks.dat'')"
    using table_load [of Map.empty "''HandRanks.dat''" False "[]"] by simp
  have 2: "HandEvaluator_init False [''t'' \<mapsto> [1, 2, 3, 4, 5]] ''t'' = Inl StructError"
  proof -
    have "length [1, 2, 3, 4, 5 :: 8 word] = 5" by simp
    then have "\<not> 4 dvd length [1, 2, 3, 4, 5 :: 8 word]" by presburger
    then show ?thesis
      using table_load [of "[''t'' \<mapsto> [1, 2, 3, 4, 5]]" "''t''" False "[1, 2, 3, 4, 5]"]
      by (simp del: list.size)
  qed
  obtain hr where hr: "HandEvaluator_init False [''u'' \<mapsto> [1, 0, 0, 0, 2, 1, 0, 0]] ''u'' = Inr hr"
      "length hr = 2" "\<forall>i < length hr. hr ! i = unpack_I False (take 4 (drop (4 * i) [1, 0, 0, 0, 2, 1, 0, 0]))"
  proof -
    have "length [1, 0, 0, 0, 2, 1, 0, 0 :: 8 word] = 8" by simp
    then have "4 dvd length [1, 0, 0, 0, 2, 1, 0, 0 :: 8 word]"
      "length [1, 0, 0, 0, 2, 1, 0, 0 :: 8 word] div 4 = 2" by presburger+
    then show ?thesis
      using that table_load [of "[''u'' \<mapsto> [1, 0, 0, 0, 2, 1, 0, 0]]" "''u''" False "[1, 0, 0, 0, 2, 1, 0, 0]"]
      by (auto simp del: list.size)
  qed
  have "hr ! 0 = 1" "hr ! 1 = 258" using hr(2,3) by (simp_all add: unpack_I_def)
  then show ?thesis using 1 2 hr by blast
qed

section \<open>The scenario sampler\<close>

lemma Deck_new_ok: "\<exists>cs. Deck_new = Inr cs \<and> length cs = 52"
  by (simp add: Deck_new_def RANKS_def SUITS_def Card_init_def get_value_def)

lemma collect_copy_valid:
  "\<forall>c \<in> set cs. 1 \<le> card_value c \<and> card_value c \<le> 52 \<Longrightarrow>
   collect (\<lambda>c. Card_init (PInt (card_value c))) cs = Inr cs"
  by (induction cs) (auto simp: Card_init_def get_value_def)

lemma collect_copy_cases:
  "(\<exists>e. collect (\<lambda>c. Card_init (PInt (card_value c))) cs = Inl e) \<or>
   collect (\<lambda>c. Card_init (PInt (card_value c))) cs = Inr cs"
  by (induction cs) (auto simp: Card_init_def get_value_def split: sum.splits)

lemma Deck_copy_cases:
  assumes "d < length ds"
  shows "(\<exists>e. Deck_copy ds d = Inl e) \<or> Deck_copy ds d = Inr (ds @ [ds ! d], length ds)"
proof -
  obtain cs where cs: "Deck_new = Inr cs" using Deck_new_ok by blast
  show ?thesis
    using collect_copy_cases [of "ds ! d"] assms
    by (auto simp: Deck_copy_def Deck_init_def cs nth_append)
qed

lemma Deck_copy_valid:
  assumes "d < length ds" "\<forall>c \<in> set (ds ! d). 1 \<le> card_value c \<and> card_value c \<le> 52"
  shows "Deck_copy ds d = Inr (ds @ [ds ! d], length ds)"
proof -
  obtain cs where cs: "Deck_new = Inr cs" using Deck_new_ok by blast
  show ?thesis
    using collect_copy_valid [OF assms(2)] assms(1)
    by (simp add: Deck_copy_def Deck_init_def cs nth_append)
qed

lemma randbelow_less: "0 < n \<Longrightarrow> fst (randbelow n g) < n"
  by (cases g) auto

lemma shuffle_loop_perm:
  "k < length xs \<Longrightarrow>
   mset (fst (shuffle_loop k xs g)) = mset xs \<and> length (fst (shuffle_loop k xs g)) = length xs"
proof (induction k arbitrary: xs g)
  case 0
  then show ?case by simp
next
  case (Suc k)
  obtain j g' where r: "randbelow (Suc k + 1) g = (j, g')" by (cases "randbelow (Suc k + 1) g")
  have "j < Suc k + 1" using randbelow_less [of "Suc k + 1" g] r by simp
  then have j: "j < length xs" using Suc.prems by simp
  let ?ys = "xs[Suc k := xs ! j, j := xs ! Suc k]"
  have "mset ?ys = mset xs" using mset_swap [of j xs "Suc k"] Suc.prems j by simp
  moreover have "length ?ys = length xs" by simp
  moreover have "k < length ?ys" using Suc.prems by simp
  ultimately show ?case using Suc.IH [of ?ys g'] r by simp
qed

lemma mset_take_subset: "mset (take n xs) \<subseteq># mset xs"
proof -
  have "mset xs = mset (take n xs) + mset (drop n xs)"
    by (metis append_take_drop_id mset_append)
  then show ?thesis by simp
qed

lemma random_shuffle_perm:
  "mset (fst (random_shuffle xs g)) = mset xs \<and> length (fst (random_shuffle xs g)) = length xs"
proof (cases xs)
  case Nil
  then show ?thesis by (simp add: random_shuffle_def)
next
  case (Cons a list)
  then show ?thesis using shuffle_loop_perm [of "length xs - 1" xs g]
    by (simp add: random_shuffle_def)
qed

text \<open>
  Claim C1, as the code has it. A call of \<^verbatim>\<open>generate_scenario\<close> on a bot whose deck is the
  deck at address \<open>d\<close> leaves every deck that existed before the call as it was (the sampler
  shuffles and deals from a copy at a fresh address). It returns \<^verbatim>\<open>None\<close> exactly when
  fewer than 2 cards remain. When the deck holds valid cards and at least
  \<open>2 + max 0 (5 - len board)\<close> of them, it returns an opponent hand of exactly 2 cards and
  exactly \<open>max 0 (5 - len board)\<close> board cards, together a sub-multiset of the deck (drawn
  without replacement). With at least 2 cards but fewer than that, \<^verbatim>\<open>Deck.deal\<close> raises
  its not-enough-cards error.
\<close>

theorem generate_scenario_contract:
  assumes "bot_deck self = Some d" and "d < length ds"
    and "generate_scenario ds self g = (ds', g', r)"
  shows "(\<forall>a < length ds. ds' ! a = ds ! a)
    \<and> (r = Inr None \<longleftrightarrow> length (ds ! d) < 2)
    \<and> ((\<forall>c \<in> set (ds ! d). 1 \<le> card_value c \<and> card_value c \<le> 52) \<longrightarrow>
         (2 + nat (5 - int (length (bot_board self))) \<le> length (ds ! d) \<longrightarrow>
            (\<exists>op_hand new_board. r = Inr (Some (op_hand, new_board)) \<and>
               length op_hand = 2 \<and>
               length new_board = nat (5 - int (length (bot_board self))) \<and>
               mset (op_hand @ new_board) \<subseteq># mset (ds ! d))) \<and>
         (2 \<le> length (ds ! d) \<and> length (ds ! d) < 2 + nat (5 - int (length (bot_board self))) \<longrightarrow>
            r = Inl NotEnoughCards))"
proof (cases "length (ds ! d) < 2")
  case True
  then have "generate_scenario ds self g = (ds, g, Inr None)"
    using assms(1) by (auto simp: generate_scenario_def)
  then show ?thesis using assms(3) True by auto
next
  case False
  then have n2: "2 \<le> length (ds ! d)" by simp
  then have ne: "ds ! d \<noteq> []" by auto
  show ?thesis
  proof (cases "Deck_copy ds d = Inr (ds @ [ds ! d], length ds)")
    case no_copy: False
    then obtain e where e: "Deck_copy ds d = Inl e"
      using Deck_copy_cases [OF assms(2)] by blast
    have "generate_scenario ds self g = (ds, g, Inl e)"
      using assms(1) n2 ne e by (auto simp: generate_scenario_def)
    moreover have "\<not> (\<forall>c \<in> set (ds ! d). 1 \<le> card_value c \<and> card_value c \<le> 52)"
      using no_copy Deck_copy_valid [OF assms(2)] by blast
    ultimately show ?thesis using assms(3) n2 by auto
  next
    case copy: True
    let ?ds1 = "ds @ [ds ! d]"
    let ?dc = "length ds"
    obtain xs g1 where sh: "random_shuffle (ds ! d) g = (xs, g1)"
      by (cases "random_shuffle (ds ! d) g")
    have xs: "mset xs = mset (ds ! d)" "length xs = length (ds ! d)"
      using random_shuffle_perm [of "ds ! d" g] sh by simp_all
    let ?ds2 = "?ds1[?dc := xs]"
    have shuf: "Deck_shuffle ?ds1 ?dc g = (?ds2, g1)"
      by (simp add: Deck_shuffle_def sh)
    let ?ds3 = "?ds2[?dc := drop 2 xs]"
    have deal2: "Deck_deal ?ds2 ?dc 2 = Inr (?ds3, take 2 xs)"
      using n2 xs(2) by (simp add: Deck_deal_def py_take_def py_drop_def)
    let ?needed = "5 - int (length (bot_board self))"
    have frame2: "\<forall>a < length ds. ?ds2 ! a = ds ! a" by (simp add: nth_append)
    have frame3: "\<forall>a < length ds. ?ds3 ! a = ds ! a" by (simp add: nth_append)
    show ?thesis
    proof (cases "?needed > 0")
      case noneed: False
      have "generate_scenario ds self g = (?ds3, g1, Inr (Some (take 2 xs, [])))"
        using assms(1) n2 ne copy shuf deal2 noneed
        by (simp add: generate_scenario_def Let_def)
      moreover have "mset (take 2 xs) \<subseteq># mset (ds ! d)"
        using xs(1) mset_take_subset [of 2 xs] by simp
      ultimately show ?thesis using assms(3) n2 noneed xs frame3 by auto
    next
      case need: True
      show ?thesis
      proof (cases "?needed > int (length (drop 2 xs))")
        case short: True
        have d: "Deck_deal ?ds3 ?dc ?needed = Inl NotEnoughCards"
          using short by (simp add: Deck_deal_def)
        have "generate_scenario ds self g = (?ds3, g1, Inl NotEnoughCards)"
          using assms(1) n2 ne copy shuf deal2 need d
          by (simp add: generate_scenario_def Let_def)
        then show ?thesis using assms(3) n2 need short xs frame3 by auto
      next
        case enough: False
        let ?nb = "take (nat ?needed) (drop 2 xs)"
        have d: "Deck_deal ?ds3 ?dc ?needed =
                   Inr (?ds3[?dc := drop (nat ?needed) (drop 2 xs)], ?nb)"
          using enough need by (simp add: Deck_deal_def py_take_def py_drop_def)
        have gs: "generate_scenario ds self g =
                (?ds3[?dc := drop (nat ?needed) (drop 2 xs)], g1, Inr (Some (take 2 xs, ?nb)))"
          using assms(1) n2 ne copy shuf deal2 need d
          by (simp add: generate_scenario_def Let_def)
        have "take 2 xs @ ?nb = take (2 + nat ?needed) xs"
          using take_add [of 2 "nat ?needed" xs] by simp
        then have sub: "mset (take 2 xs @ ?nb) \<subseteq># mset (ds ! d)"
          using xs(1) mset_take_subset [of "2 + nat ?needed" xs] by simp
        have len: "length (take 2 xs) = 2" "length ?nb = nat ?needed"
          using n2 xs(2) enough need by auto
        have frame4: "\<forall>a < length ds. (?ds3[?dc := drop (nat ?needed) (drop 2 xs)]) ! a = ds ! a"
          by (simp add: nth_append)
        show ?thesis using assms(3) gs sub len frame4 n2 need enough xs(2) by auto
      qed
    qed
  qed
qed

theorem generate_scenario_contract_witness:
  "generate_scenario [[Card 1, Card 2, Card 3, Card 4]]
     \<lparr>bot_hand = [PInt 51, PInt 52], bot_board = [PInt 7, PInt 8, PInt 9],
      bot_deck = Some 0, bot_root = 0\<rparr> [1, 2, 3]
   = ([[Card 1, Card 2, Card 3, Card 4], []], [], Inr (Some ([Card 1, Card 4], [Card 3, Card 2])))
   \<and> mset ([Card 1, Card 4] @ [Card 3, Card 2]) \<subseteq># mset [Card 1, Card 2, Card 3, Card 4]"
proof -
  let ?self = "\<lparr>bot_hand = [PInt 51, PInt 52], bot_board = [PInt 7, PInt 8, PInt 9],
      bot_deck = Some 0, bot_root = 0\<rparr>"
  have ev: "generate_scenario [[Card 1, Card 2, Card 3, Card 4]] ?self [1, 2, 3]
      = ([[Card 1, Card 2, Card 3, Card 4], []], [], Inr (Some ([Card 1, Card 4], [Card 3, Card 2])))"
    by code_simp
  have d: "bot_deck ?self = Some 0" "(0::nat) < length [[Card 1, Card 2, Card 3, Card 4]]"
    by simp_all
  show ?thesis
    using generate_scenario_contract [OF d ev] ev by simp
qed

text \<open>
  A deck of two cards and an empty board: two cards remain, and the call neither returns
  \<^verbatim>\<open>None\<close> nor a scenario, it raises in the second \<^verbatim>\<open>deal\<close>.
\<close>

theorem generate_scenario_counterexample:
  "\<not> length [Card 1, Card 2] < 2 \<and>
   generate_scenario [[Card 1, Card 2]]
     \<lparr>bot_hand = [PInt 51, PInt 52], bot_board = [], bot_deck = Some 0, bot_root = 0\<rparr> [0]
   = ([[Card 1, Card 2], []], [], Inl NotEnoughCards)"
  by code_simp

section \<open>Backpropagation\<close>

lemma on_path_le:
  assumes "wf_tree ns" and "on_path ns a j" and "a < length ns"
  shows "j \<le> a"
  using assms(2)
proof (induction rule: on_path.induct)
  case on_path_self
  show ?case by simp
next
  case (on_path_up b p)
  then have "b < length ns" using assms(3) by simp
  then have "p < b" using assms(1) on_path_up.hyps(2) by (simp add: wf_tree_def)
  then show ?case using on_path_up.IH by simp
qed

lemma on_path_parents:
  assumes "on_path ns a j" and "\<And>i. parent (ns' ! i) = parent (ns ! i)"
  shows "on_path ns' a j"
  using assms(1)
proof (induction rule: on_path.induct)
  case on_path_self
  show ?case by (rule on_path.on_path_self)
next
  case (on_path_up b p)
  have "parent (ns' ! b) = Some p" using assms(2) on_path_up.hyps(2) by simp
  then show ?case by (rule on_path.on_path_up [OF on_path_up.IH])
qed

lemma on_path_via_parent:
  assumes "on_path ns p j" and "parent (ns ! a) = Some p"
  shows "on_path ns a j"
  using assms(1)
proof (induction rule: on_path.induct)
  case on_path_self
  show ?case by (rule on_path.on_path_up [OF on_path.on_path_self assms(2)])
next
  case (on_path_up b q)
  show ?case by (rule on_path.on_path_up [OF on_path_up.IH on_path_up.hyps(2)])
qed

lemma on_path_cases:
  assumes "on_path ns a j"
  shows "j = a \<or> (\<exists>p. parent (ns ! a) = Some p \<and> on_path ns p j)"
  using assms
proof (induction rule: on_path.induct)
  case on_path_self
  show ?case by simp
next
  case (on_path_up b q)
  from on_path_up.IH show ?case
  proof
    assume "b = a"
    then have "parent (ns ! a) = Some q \<and> on_path ns q q"
      using on_path_up.hyps(2) on_path.on_path_self by simp
    then show ?thesis by blast
  next
    assume "\<exists>p. parent (ns ! a) = Some p \<and> on_path ns p b"
    then obtain p where p: "parent (ns ! a) = Some p" "on_path ns p b" by blast
    have "on_path ns p q" by (rule on_path.on_path_up [OF p(2) on_path_up.hyps(2)])
    then show ?thesis using p(1) by blast
  qed
qed

lemma parent_bump:
  "parent ((ns[a := (ns ! a)\<lparr>visits := v, wins := w\<rparr>]) ! i) = parent (ns ! i)"
proof (cases "a < length ns \<and> i = a")
  case True
  then show ?thesis by simp
next
  case False
  then show ?thesis by (auto simp: list_update_beyond)
qed

lemma children_bump:
  "children ((ns[a := (ns ! a)\<lparr>visits := v, wins := w\<rparr>]) ! i) = children (ns ! i)"
proof (cases "a < length ns \<and> i = a")
  case True
  then show ?thesis by simp
next
  case False
  then show ?thesis by (auto simp: list_update_beyond)
qed

lemma wf_tree_same_links:
  assumes "wf_tree ns" and "length ns' = length ns"
    and "\<And>i. parent (ns' ! i) = parent (ns ! i)"
    and "\<And>i. children (ns' ! i) = children (ns ! i)"
  shows "wf_tree ns'"
  using assms(1) unfolding wf_tree_def assms(2,3,4) .

lemma wf_tree_bump:
  "wf_tree ns \<Longrightarrow> wf_tree (ns[a := (ns ! a)\<lparr>visits := v, wins := w\<rparr>])"
  by (rule wf_tree_same_links [where ns = ns]) (simp_all only: parent_bump children_bump length_list_update)

lemma backpropagate_path:
  assumes "wf_tree ns" and "a < length ns"
  shows "\<exists>ns'. backpropagate ns (Some a) r = Some ns' \<and> length ns' = length ns \<and>
           (\<forall>j < length ns.
              ns' ! j = (if on_path ns a j
                         then (ns ! j)\<lparr>visits := visits (ns ! j) + 1, wins := wins (ns ! j) + r\<rparr>
                         else ns ! j))"
  using assms
proof (induction a arbitrary: ns rule: less_induct)
  case (less a)
  let ?ns1 = "ns[a := (ns ! a)\<lparr>visits := visits (ns ! a) + 1, wins := wins (ns ! a) + r\<rparr>]"
  have step: "backpropagate ns (Some a) r = backpropagate ?ns1 (parent (ns ! a)) r"
    by (subst backpropagate.simps) simp
  show ?case
  proof (cases "parent (ns ! a)")
    case None
    have stop: "backpropagate ?ns1 None r = Some ?ns1" by (subst backpropagate.simps) simp
    have only: "\<And>j. on_path ns a j \<longleftrightarrow> j = a"
      using on_path_cases [of ns a] None on_path.on_path_self [of ns a] by auto
    have "\<forall>j < length ns.
              ?ns1 ! j = (if on_path ns a j
                         then (ns ! j)\<lparr>visits := visits (ns ! j) + 1, wins := wins (ns ! j) + r\<rparr>
                         else ns ! j)"
      using less.prems(2) by (simp add: only nth_list_update)
    then show ?thesis using step stop None by simp
  next
    case (Some p)
    have pa: "p < a" using less.prems Some by (simp add: wf_tree_def)
    have wf1: "wf_tree ?ns1" using less.prems(1) by (rule wf_tree_bump)
    have "p < length ?ns1" using pa less.prems(2) by simp
    from less.IH [OF pa wf1 this]
    obtain ns' where ns': "backpropagate ?ns1 (Some p) r = Some ns'" "length ns' = length ?ns1"
      "\<forall>j < length ?ns1.
          ns' ! j = (if on_path ?ns1 p j
                     then (?ns1 ! j)\<lparr>visits := visits (?ns1 ! j) + 1, wins := wins (?ns1 ! j) + r\<rparr>
                     else ?ns1 ! j)"
      by blast
    have same: "on_path ?ns1 p j \<longleftrightarrow> on_path ns p j" for j
    proof
      assume "on_path ?ns1 p j"
      then show "on_path ns p j"
        by (rule on_path_parents) (simp only: parent_bump)
    next
      assume "on_path ns p j"
      then show "on_path ?ns1 p j"
        by (rule on_path_parents) (simp only: parent_bump)
    qed
    have split: "on_path ns a j \<longleftrightarrow> j = a \<or> on_path ns p j" for j
    proof
      assume "on_path ns a j"
      then show "j = a \<or> on_path ns p j" using on_path_cases [of ns a j] Some by auto
    next
      assume "j = a \<or> on_path ns p j"
      then show "on_path ns a j"
        using on_path.on_path_self [of ns a] on_path_via_parent [of ns p j a] Some by auto
    qed
    have notp: "\<not> on_path ns p a"
      using on_path_le [OF less.prems(1), of p a] pa less.prems(2) by auto
    have "\<forall>j < length ns.
              ns' ! j = (if on_path ns a j
                         then (ns ! j)\<lparr>visits := visits (ns ! j) + 1, wins := wins (ns ! j) + r\<rparr>
                         else ns ! j)"
    proof (intro allI impI)
      fix j assume j: "j < length ns"
      then have nj: "ns' ! j = (if on_path ns p j
                     then (?ns1 ! j)\<lparr>visits := visits (?ns1 ! j) + 1, wins := wins (?ns1 ! j) + r\<rparr>
                     else ?ns1 ! j)" using ns'(3) same by simp
      show "ns' ! j = (if on_path ns a j
                         then (ns ! j)\<lparr>visits := visits (ns ! j) + 1, wins := wins (ns ! j) + r\<rparr>
                         else ns ! j)"
      proof (cases "j = a")
        case True
        then show ?thesis using nj j notp split [of j] by simp
      next
        case False
        then show ?thesis using nj j split [of j] by simp
      qed
    qed
    then show ?thesis using step Some ns'(1,2) by simp
  qed
qed

lemma on_path_top:
  assumes "wf_tree ns" and "a < length ns"
  shows "\<exists>t. on_path ns a t \<and> parent (ns ! t) = None"
  using assms(2)
proof (induction a rule: less_induct)
  case (less a)
  show ?case
  proof (cases "parent (ns ! a)")
    case None
    then show ?thesis using on_path.on_path_self by blast
  next
    case (Some p)
    then have "p < a" using assms(1) less.prems by (simp add: wf_tree_def)
    then obtain t where "on_path ns p t" "parent (ns ! t) = None"
      using less.IH [of p] less.prems by auto
    then show ?thesis using on_path_via_parent [OF _ Some] by blast
  qed
qed

text \<open>
  Claim C10. On a well-formed store, \<^verbatim>\<open>backpropagate\<close> from a node returns, and the store it
  leaves has the same nodes: a node on the path from the evaluated node up through the parent
  links is the old node with \<open>visits\<close> incremented by 1 and \<open>wins\<close> by the result, all
  its other fields (hand, board, scenario, parent, children) as before; a node off that path
  is unchanged. The path ends in a node without parent, the root of the tree.
\<close>

theorem backpropagate_frame:
  assumes "wf_tree ns" and "a < length ns"
  shows "\<exists>ns'. backpropagate ns (Some a) r = Some ns' \<and> length ns' = length ns \<and>
           (\<forall>j < length ns.
              (on_path ns a j \<longrightarrow>
                 ns' ! j = (ns ! j)\<lparr>visits := visits (ns ! j) + 1, wins := wins (ns ! j) + r\<rparr>) \<and>
              (\<not> on_path ns a j \<longrightarrow> ns' ! j = ns ! j)) \<and>
           (\<exists>t. on_path ns a t \<and> parent (ns ! t) = None)"
proof -
  obtain ns' where "backpropagate ns (Some a) r = Some ns'" "length ns' = length ns"
      "\<forall>j < length ns.
              ns' ! j = (if on_path ns a j
                         then (ns ! j)\<lparr>visits := visits (ns ! j) + 1, wins := wins (ns ! j) + r\<rparr>
                         else ns ! j)"
    using backpropagate_path [OF assms, of r] by blast
  then show ?thesis using on_path_top [OF assms] by simp
qed

theorem backpropagate_frame_witness:
  "\<exists>ns'. backpropagate
       [\<lparr>hand = [], board = [], parent = None, scenario = None, visits = 0, wins = 0,
          children = [(7, 1), (9, 2)]\<rparr>,
        MCTSNode_init [] [] (Some 0) (Some ([Card 1, Card 2], [])),
        MCTSNode_init [] [] (Some 0) (Some ([Card 3, Card 4], []))] (Some 1) 1 = Some ns'
     \<and> length ns' = 3
     \<and> ns' ! 0 = \<lparr>hand = [], board = [], parent = None, scenario = None, visits = 1, wins = 1,
          children = [(7, 1), (9, 2)]\<rparr>
     \<and> ns' ! 1 = (MCTSNode_init [] [] (Some 0) (Some ([Card 1, Card 2], [])))\<lparr>visits := 1, wins := 1\<rparr>
     \<and> ns' ! 2 = MCTSNode_init [] [] (Some 0) (Some ([Card 3, Card 4], []))"
proof -
  let ?ns = "[\<lparr>hand = [], board = [], parent = None, scenario = None, visits = 0, wins = 0,
          children = [(7, 1), (9, 2)]\<rparr>,
        MCTSNode_init [] [] (Some 0) (Some ([Card 1, Card 2], [])),
        MCTSNode_init [] [] (Some 0) (Some ([Card 3, Card 4], []))]"
  have wf: "wf_tree ?ns"
    by (auto simp: wf_tree_def MCTSNode_init_def less_Suc_eq numeral_3_eq_3 nth_Cons')
  have len: "1 < length ?ns" by simp
  have p1: "on_path ?ns 1 1" by (rule on_path.on_path_self)
  have p0: "on_path ?ns 1 0"
    by (rule on_path.on_path_up [OF p1]) (simp add: MCTSNode_init_def)
  have p2: "\<not> on_path ?ns 1 2" using on_path_le [OF wf _ len, of 2] by auto
  from backpropagate_frame [OF wf len, of 1] obtain ns' where
    ns': "backpropagate ?ns (Some 1) 1 = Some ns'" "length ns' = length ?ns"
      "\<forall>j < length ?ns.
              (on_path ?ns 1 j \<longrightarrow>
                 ns' ! j = (?ns ! j)\<lparr>visits := visits (?ns ! j) + 1, wins := wins (?ns ! j) + 1\<rparr>) \<and>
              (\<not> on_path ?ns 1 j \<longrightarrow> ns' ! j = ?ns ! j)"
    by blast
  have "ns' ! 0 = (?ns ! 0)\<lparr>visits := visits (?ns ! 0) + 1, wins := wins (?ns ! 0) + 1\<rparr>"
    using ns'(3) p0 by simp
  moreover have "ns' ! 1 = (?ns ! 1)\<lparr>visits := visits (?ns ! 1) + 1, wins := wins (?ns ! 1) + 1\<rparr>"
    using ns'(3) p1 by simp
  moreover have "ns' ! 2 = ?ns ! 2" using ns'(3) p2 by simp
  ultimately show ?thesis using ns'(1,2) by (simp add: MCTSNode_init_def)
qed

section \<open>Selection\<close>

lemma score_gt_trans: "\<not> score_gt a b \<Longrightarrow> \<not> score_gt b c \<Longrightarrow> \<not> score_gt a c"
  by (cases a; cases b; cases c) auto

lemma score_gt_less: "score_gt c b \<Longrightarrow> \<not> score_gt b c"
  by (cases b; cases c) auto

lemma score_gt_top: "\<not> score_gt Infinity k \<Longrightarrow> k = Infinity"
  by (cases k) auto

lemma max_loop_max:
  assumes "max_loop key best bk xs = Inr m" and "key best = Inr bk"
  shows "m \<in> set (best # xs) \<and>
         (\<exists>km. key m = Inr km \<and> \<not> score_gt bk km \<and>
            (\<forall>y \<in> set xs. \<exists>ky. key y = Inr ky \<and> \<not> score_gt ky km))"
  using assms
proof (induction xs arbitrary: best bk)
  case Nil
  then show ?case by (cases bk) auto
next
  case (Cons x xs)
  from Cons.prems(1) obtain k where k: "key x = Inr k" by (cases "key x") auto
  show ?case
  proof (cases "score_gt k bk")
    case True
    then have "max_loop key x k xs = Inr m" using Cons.prems(1) k by simp
    from Cons.IH [OF this k] obtain km where km: "m \<in> set (x # xs)" "key m = Inr km"
        "\<not> score_gt k km" "\<forall>y \<in> set xs. \<exists>ky. key y = Inr ky \<and> \<not> score_gt ky km"
      by blast
    have "\<not> score_gt bk km" using score_gt_trans [OF score_gt_less [OF True] km(3)] .
    then show ?thesis using km k by auto
  next
    case False
    then have "max_loop key best bk xs = Inr m" using Cons.prems(1) k by simp
    from Cons.IH [OF this Cons.prems(2)] obtain km where km: "m \<in> set (best # xs)"
        "key m = Inr km" "\<not> score_gt bk km"
        "\<forall>y \<in> set xs. \<exists>ky. key y = Inr ky \<and> \<not> score_gt ky km"
      by blast
    have "\<not> score_gt k km" using score_gt_trans [OF False km(3)] .
    then show ?thesis using km k by auto
  qed
qed

lemma max_loop_total:
  "\<forall>y \<in> set xs. \<exists>k. key y = Inr k \<Longrightarrow> \<exists>m. max_loop key best bk xs = Inr m"
  by (induction xs arbitrary: best bk) auto

lemma py_max_max:
  assumes "py_max key xs = Inr m"
  shows "m \<in> set xs \<and>
         (\<exists>km. key m = Inr km \<and> (\<forall>y \<in> set xs. \<exists>ky. key y = Inr ky \<and> \<not> score_gt ky km))"
proof (cases xs)
  case Nil
  then show ?thesis using assms by (simp add: py_max_def)
next
  case (Cons x rest)
  then obtain k where k: "key x = Inr k" using assms by (cases "key x") (auto simp: py_max_def)
  then have "max_loop key x k rest = Inr m" using assms Cons by (simp add: py_max_def)
  from max_loop_max [OF this k] show ?thesis using Cons k by auto
qed

lemma py_max_total:
  "xs \<noteq> [] \<Longrightarrow> \<forall>y \<in> set xs. \<exists>k. key y = Inr k \<Longrightarrow> \<exists>m. py_max key xs = Inr m"
  using max_loop_total [of "tl xs" key "hd xs"]
  by (cases xs) (auto simp: py_max_def)

lemma select_step_max:
  assumes "select_step ns a b"
  shows "b \<in> snd ` set (children (ns ! a)) \<and>
         (\<exists>kb. ucb1 ns b 1.414 = Inr kb \<and>
            (\<forall>y \<in> snd ` set (children (ns ! a)).
               \<exists>ky. ucb1 ns y 1.414 = Inr ky \<and> \<not> score_gt ky kb))"
proof -
  have "py_max (\<lambda>n. ucb1 ns n 1.414) (map snd (children (ns ! a))) = Inr b"
    using assms by (auto simp: select_step_def select_child_def)
  from py_max_max [OF this] show ?thesis by simp
qed

lemma ucb1_Infinity: "ucb1 ns n c = Inr Infinity \<longleftrightarrow> visits (ns ! n) = 0"
  by (auto simp: ucb1_def Let_def split: option.splits)

lemma ucb1_child_ok:
  assumes "wf_tree ns" and "stats_ok ns" and "a < length ns"
    and "y \<in> snd ` set (children (ns ! a))"
  shows "\<exists>k. ucb1 ns y c = Inr k"
proof (cases "visits (ns ! y) = 0")
  case True
  then show ?thesis by (simp add: ucb1_def)
next
  case False
  have y: "y < length ns" "parent (ns ! y) = Some a"
    using assms(1,3,4) by (auto simp: wf_tree_def)
  have "0 \<le> wins (ns ! y)" "wins (ns ! y) \<le> visits (ns ! y)" "visits (ns ! y) \<le> visits (ns ! a)"
    using assms(2) y by (auto simp: stats_ok_def)
  then have v: "0 < visits (ns ! y)" "1 \<le> visits (ns ! a)" using False by auto
  then have "0 \<le> ln (real_of_int (visits (ns ! a)))" by simp
  then have "0 \<le> ln (real_of_int (visits (ns ! a))) / real_of_int (visits (ns ! y))"
    using v(1) by simp
  then show ?thesis using v y False by (simp add: ucb1_def Let_def not_less [symmetric])
qed

lemma select_child_ok:
  assumes "wf_tree ns" and "stats_ok ns" and "a < length ns" and "children (ns ! a) \<noteq> []"
  shows "\<exists>b. select_step ns a b \<and> a < b \<and> b < length ns"
proof -
  have "\<forall>y \<in> set (map snd (children (ns ! a))). \<exists>k. ucb1 ns y 1.414 = Inr k"
    using ucb1_child_ok [OF assms(1,2,3)] by simp
  then obtain b where b: "py_max (\<lambda>n. ucb1 ns n 1.414) (map snd (children (ns ! a))) = Inr b"
    using py_max_total [of "map snd (children (ns ! a))" "\<lambda>n. ucb1 ns n 1.414"] assms(4) by auto
  then have st: "select_step ns a b" using assms(4) by (simp add: select_step_def select_child_def)
  then have "b \<in> snd ` set (children (ns ! a))" using select_step_max by blast
  then have "a < b \<and> b < length ns" using assms(1,3) by (auto simp: wf_tree_def)
  then show ?thesis using st by blast
qed

lemma select_loop_descends:
  assumes "wf_tree ns" and "stats_ok ns" and "a < length ns"
  shows "\<exists>leaf. select_loop ns a = Some (Inr leaf) \<and> (select_step ns)\<^sup>*\<^sup>* a leaf \<and>
           children (ns ! leaf) = [] \<and> leaf < length ns"
  using assms(3)
proof (induction "length ns - a" arbitrary: a rule: less_induct)
  case less
  show ?case
  proof (cases "children (ns ! a) = []")
    case True
    then have "select_loop ns a = Some (Inr a)" by (subst select_loop.simps) simp
    then show ?thesis using True less.prems by blast
  next
    case False
    from select_child_ok [OF assms(1,2) less.prems False]
    obtain b where b: "select_step ns a b" "a < b" "b < length ns" by blast
    then have "select_child ns a 1.414 = Inr b" by (simp add: select_step_def)
    then have step: "select_loop ns a = select_loop ns b"
      using False by (subst select_loop.simps) simp
    have "length ns - b < length ns - a" using b by simp
    from less.hyps [OF this b(3)] obtain leaf where
      "select_loop ns b = Some (Inr leaf)" "(select_step ns)\<^sup>*\<^sup>* b leaf"
      "children (ns ! leaf) = []" "leaf < length ns" by blast
    then show ?thesis using step b(1) by (metis converse_rtranclp_into_rtranclp)
  qed
qed

text \<open>
  Claim C5. The score of a node is \<open>+infinity\<close> when it has no visits, \<open>wins / visits\<close> when
  it has visits and no parent, and \<open>wins / visits + c * sqrt (ln (parent.visits) / visits)\<close>
  when it has visits and a visited parent. A step of the descent goes from a node with children
  to one of its children whose score no other child's score exceeds; when some child has no
  visits, the chosen child has none. On a well-formed store that satisfies the statistics
  invariant, \<^verbatim>\<open>select\<close> returns: its result is reached from the root by such steps and has
  no children, and every node stepped from has children. Scores are real numbers here, the
  rounding of floats is not modelled.
\<close>

theorem select_descends_by_ucb1:
  "(visits (ns ! n) = 0 \<longrightarrow> ucb1 ns n c = Inr Infinity)
   \<and> (visits (ns ! n) \<noteq> 0 \<and> parent (ns ! n) = None \<longrightarrow>
        ucb1 ns n c = Inr (Finite (real_of_int (wins (ns ! n)) / real_of_int (visits (ns ! n)))))
   \<and> (visits (ns ! n) > 0 \<and> parent (ns ! n) = Some p \<and> visits (ns ! p) \<ge> 1 \<longrightarrow>
        ucb1 ns n c = Inr (Finite (real_of_int (wins (ns ! n)) / real_of_int (visits (ns ! n))
          + c * sqrt (ln (real_of_int (visits (ns ! p))) / real_of_int (visits (ns ! n))))))
   \<and> (select_step ns a b \<longrightarrow>
        b \<in> snd ` set (children (ns ! a)) \<and>
        (\<exists>kb. ucb1 ns b 1.414 = Inr kb \<and>
           (\<forall>y \<in> snd ` set (children (ns ! a)).
              \<exists>ky. ucb1 ns y 1.414 = Inr ky \<and> \<not> score_gt ky kb)) \<and>
        ((\<exists>y \<in> snd ` set (children (ns ! a)). visits (ns ! y) = 0) \<longrightarrow> visits (ns ! b) = 0))
   \<and> (wf_tree ns \<and> stats_ok ns \<and> bot_root self < length ns \<longrightarrow>
        (\<exists>leaf. select self ns = Some (Inr leaf) \<and> (select_step ns)\<^sup>*\<^sup>* (bot_root self) leaf \<and>
           children (ns ! leaf) = []))"
proof (intro conjI impI)
  assume "visits (ns ! n) = 0"
  then show "ucb1 ns n c = Inr Infinity" by (simp add: ucb1_def)
next
  assume "visits (ns ! n) \<noteq> 0 \<and> parent (ns ! n) = None"
  then show "ucb1 ns n c = Inr (Finite (real_of_int (wins (ns ! n)) / real_of_int (visits (ns ! n))))"
    by (simp add: ucb1_def)
next
  assume a: "visits (ns ! n) > 0 \<and> parent (ns ! n) = Some p \<and> visits (ns ! p) \<ge> 1"
  then have "0 \<le> ln (real_of_int (visits (ns ! p)))" by simp
  then have "0 \<le> ln (real_of_int (visits (ns ! p))) / real_of_int (visits (ns ! n))"
    using a by simp
  then show "ucb1 ns n c = Inr (Finite (real_of_int (wins (ns ! n)) / real_of_int (visits (ns ! n))
          + c * sqrt (ln (real_of_int (visits (ns ! p))) / real_of_int (visits (ns ! n)))))"
    using a by (simp add: ucb1_def Let_def not_less [symmetric])
next
  assume st: "select_step ns a b"
  then show "b \<in> snd ` set (children (ns ! a))" using select_step_max by blast
  from select_step_max [OF st] obtain kb where kb: "ucb1 ns b 1.414 = Inr kb"
      "\<forall>y \<in> snd ` set (children (ns ! a)). \<exists>ky. ucb1 ns y 1.414 = Inr ky \<and> \<not> score_gt ky kb"
    by blast
  then show "\<exists>kb. ucb1 ns b 1.414 = Inr kb \<and>
           (\<forall>y \<in> snd ` set (children (ns ! a)).
              \<exists>ky. ucb1 ns y 1.414 = Inr ky \<and> \<not> score_gt ky kb)" by blast
  assume "\<exists>y \<in> snd ` set (children (ns ! a)). visits (ns ! y) = 0"
  then obtain y where y: "y \<in> snd ` set (children (ns ! a))" "visits (ns ! y) = 0" by blast
  then have "ucb1 ns y 1.414 = Inr Infinity" by (simp add: ucb1_Infinity)
  then have "\<not> score_gt Infinity kb" using kb(2) y(1) by fastforce
  then have "kb = Infinity" by (rule score_gt_top)
  then show "visits (ns ! b) = 0" using kb(1) ucb1_Infinity by blast
next
  assume "wf_tree ns \<and> stats_ok ns \<and> bot_root self < length ns"
  then show "\<exists>leaf. select self ns = Some (Inr leaf) \<and>
      (select_step ns)\<^sup>*\<^sup>* (bot_root self) leaf \<and> children (ns ! leaf) = []"
    using select_loop_descends [of ns "bot_root self"] by (auto simp: select_def)
qed

theorem select_descends_by_ucb1_witness:
  "ucb1 [\<lparr>hand = [], board = [], parent = None, scenario = None, visits = 1, wins = 1,
          children = [(7, 1), (9, 2)]\<rparr>,
        (MCTSNode_init [] [] (Some 0) (Some ([Card 1, Card 2], [])))\<lparr>visits := 1, wins := 1\<rparr>,
        MCTSNode_init [] [] (Some 0) (Some ([Card 3, Card 4], []))] 2 1.414 = Inr Infinity
   \<and> ucb1 [\<lparr>hand = [], board = [], parent = None, scenario = None, visits = 1, wins = 1,
          children = [(7, 1), (9, 2)]\<rparr>,
        (MCTSNode_init [] [] (Some 0) (Some ([Card 1, Card 2], [])))\<lparr>visits := 1, wins := 1\<rparr>,
        MCTSNode_init [] [] (Some 0) (Some ([Card 3, Card 4], []))] 0 1.414 = Inr (Finite 1)
   \<and> ucb1 [\<lparr>hand = [], board = [], parent = None, scenario = None, visits = 1, wins = 1,
          children = [(7, 1), (9, 2)]\<rparr>,
        (MCTSNode_init [] [] (Some 0) (Some ([Card 1, Card 2], [])))\<lparr>visits := 1, wins := 1\<rparr>,
        MCTSNode_init [] [] (Some 0) (Some ([Card 3, Card 4], []))] 1 1.414 = Inr (Finite 1)
   \<and> select \<lparr>bot_hand = [], bot_board = [], bot_deck = None, bot_root = 0\<rparr>
        [\<lparr>hand = [], board = [], parent = None, scenario = None, visits = 1, wins = 1,
          children = [(7, 1), (9, 2)]\<rparr>,
        (MCTSNode_init [] [] (Some 0) (Some ([Card 1, Card 2], [])))\<lparr>visits := 1, wins := 1\<rparr>,
        MCTSNode_init [] [] (Some 0) (Some ([Card 3, Card 4], []))] = Some (Inr 2)
   \<and> (select_step
        [\<lparr>hand = [], board = [], parent = None, scenario = None, visits = 1, wins = 1,
          children = [(7, 1), (9, 2)]\<rparr>,
        (MCTSNode_init [] [] (Some 0) (Some ([Card 1, Card 2], [])))\<lparr>visits := 1, wins := 1\<rparr>,
        MCTSNode_init [] [] (Some 0) (Some ([Card 3, Card 4], []))])\<^sup>*\<^sup>* 0 2"
proof -
  let ?ns = "[\<lparr>hand = [], board = [], parent = None, scenario = None, visits = 1, wins = 1,
          children = [(7, 1), (9, 2)]\<rparr>,
        (MCTSNode_init [] [] (Some 0) (Some ([Card 1, Card 2], [])))\<lparr>visits := 1, wins := 1\<rparr>,
        MCTSNode_init [] [] (Some 0) (Some ([Card 3, Card 4], []))]"
  let ?self = "\<lparr>bot_hand = [], bot_board = [], bot_deck = None, bot_root = 0\<rparr>"
  have wf: "wf_tree ?ns"
    by (auto simp: wf_tree_def MCTSNode_init_def less_Suc_eq numeral_3_eq_3 nth_Cons')
  have st: "stats_ok ?ns"
    by (auto simp: stats_ok_def MCTSNode_init_def less_Suc_eq numeral_3_eq_3 nth_Cons')
  have u2: "ucb1 ?ns 2 1.414 = Inr Infinity"
    using select_descends_by_ucb1 [of ?ns 2 "1.414"] by (simp add: MCTSNode_init_def)
  have u0: "ucb1 ?ns 0 1.414 = Inr (Finite 1)"
    using select_descends_by_ucb1 [of ?ns 0 "1.414"] by simp
  have u1: "ucb1 ?ns 1 1.414 = Inr (Finite 1)"
    using select_descends_by_ucb1 [of ?ns 1 "1.414" 0] by (simp add: MCTSNode_init_def)
  have step: "select_step ?ns 0 2"
    using u1 u2 by (simp add: select_step_def select_child_def py_max_def)
  obtain leaf where leaf: "select ?self ?ns = Some (Inr leaf)"
      "(select_step ?ns)\<^sup>*\<^sup>* 0 leaf" "children (?ns ! leaf) = []"
    using select_descends_by_ucb1 [of ?ns 0 0 0 0 0 ?self] wf st by auto
  have mx: "\<exists>kb. ucb1 ?ns 2 1.414 = Inr kb \<and>
           (\<forall>y \<in> snd ` set (children (?ns ! 0)).
              \<exists>ky. ucb1 ?ns y 1.414 = Inr ky \<and> \<not> score_gt ky kb)"
    using select_descends_by_ucb1 [of ?ns 0 0 0 0 2 ?self] step by blast
  have sel: "select ?self ?ns = Some (Inr 2)"
  proof -
    have "select_loop ?ns 2 = Some (Inr 2)"
      by (subst select_loop.simps) (simp add: MCTSNode_init_def)
    moreover have "select_loop ?ns 0 = select_loop ?ns 2"
      using step by (subst select_loop.simps) (simp add: select_step_def)
    ultimately show ?thesis by (simp add: select_def)
  qed
  then have "leaf = 2" using leaf(1) by simp
  then show ?thesis using u0 u1 u2 sel leaf(2) mx by simp
qed

section \<open>Expansion\<close>

lemma card_nat_inj: "inj_on (\<lambda>c. nat (card_value c)) {c. 0 \<le> card_value c}"
  by (rule inj_onI) (simp add: card.expand)

lemma ex_hash_inj: "inj_on ex_hash ex_dom"
proof (rule inj_onI)
  fix x y :: "card set \<times> card set"
  assume x: "x \<in> ex_dom" and y: "y \<in> ex_dom" and e: "ex_hash x = ex_hash y"
  obtain A B where xe: "x = (A, B)" by (cases x)
  obtain A' B' where ye: "y = (A', B')" by (cases y)
  let ?f = "\<lambda>c. nat (card_value c)"
  have fin: "finite A" "finite B" "finite A'" "finite B'" using x y xe ye by simp_all
  have sub: "A \<subseteq> {c. 0 \<le> card_value c}" "B \<subseteq> {c. 0 \<le> card_value c}"
      "A' \<subseteq> {c. 0 \<le> card_value c}" "B' \<subseteq> {c. 0 \<le> card_value c}"
    using x y xe ye by auto
  have "prod_encode (set_encode (?f ` A), set_encode (?f ` B))
      = prod_encode (set_encode (?f ` A'), set_encode (?f ` B'))"
    using e xe ye by simp
  then have "set_encode (?f ` A) = set_encode (?f ` A')" "set_encode (?f ` B) = set_encode (?f ` B')"
    by (simp_all add: prod_encode_eq)
  then have "?f ` A = ?f ` A'" "?f ` B = ?f ` B'"
    using fin by (simp_all add: set_encode_eq)
  then have "A = A'" "B = B'"
    using inj_on_image_eq_iff [OF card_nat_inj sub(1,3)]
      inj_on_image_eq_iff [OF card_nat_inj sub(2,4)] by simp_all
  then show "x = y" using xe ye by simp
qed

text \<open>
  Claim C4, as the code has it. With \<open>(ds, g, r)\<close> what the sampler returns for the call:
  if the sampler raises, \<^verbatim>\<open>expand\<close> raises the same error. If it yields no scenario,
  \<^verbatim>\<open>expand\<close> returns the same leaf and the node store is unchanged. The key of a
  scenario is the hash of the set of opponent cards and the set of new board cards: two
  samples with the same cards in another order have equal keys, and under a hash that is
  injective on a domain holding both pairs of sets, equal keys mean equal sets of cards. If
  the leaf's children already hold the key, that child is returned and the node store is
  unchanged. Otherwise exactly one node is added: it holds the scenario, the leaf's hand and
  board, the leaf as parent, no visits, no wins and no children; it is entered under the key
  at the end of the leaf's children, no other node changes, and it is returned.
\<close>

theorem expand_contract:
  assumes "generate_scenario (decks w) self (rand w) = (ds, g, r)"
  shows "(r = Inl e \<longrightarrow> expand H self w node = Inl e)
    \<and> (r = Inr None \<longrightarrow>
          expand H self w node = Inr (w\<lparr>decks := ds, rand := g\<rparr>, node))
    \<and> (set (fst sc1) = set (fst sc2) \<and> set (snd sc1) = set (snd sc2) \<longrightarrow>
          scenario_key H sc1 = scenario_key H sc2)
    \<and> (inj_on H D \<and> (set (fst sc1), set (snd sc1)) \<in> D \<and> (set (fst sc2), set (snd sc2)) \<in> D \<and>
        scenario_key H sc1 = scenario_key H sc2 \<longrightarrow>
          set (fst sc1) = set (fst sc2) \<and> set (snd sc1) = set (snd sc2))
    \<and> (r = Inr (Some sc) \<and> map_of (children (nodes w ! node)) (scenario_key H sc) = Some ch \<longrightarrow>
          expand H self w node = Inr (w\<lparr>decks := ds, rand := g\<rparr>, ch))
    \<and> (r = Inr (Some sc) \<and> map_of (children (nodes w ! node)) (scenario_key H sc) = None \<and>
        node < length (nodes w) \<longrightarrow>
          (\<exists>w'. expand H self w node = Inr (w', length (nodes w)) \<and>
             decks w' = ds \<and> rand w' = g \<and>
             length (nodes w') = length (nodes w) + 1 \<and>
             nodes w' ! length (nodes w) =
               \<lparr>hand = hand (nodes w ! node), board = board (nodes w ! node),
                parent = Some node, scenario = Some sc, visits = 0, wins = 0, children = []\<rparr> \<and>
             nodes w' ! node = (nodes w ! node)
               \<lparr>children := children (nodes w ! node) @ [(scenario_key H sc, length (nodes w))]\<rparr> \<and>
             (\<forall>j < length (nodes w). j \<noteq> node \<longrightarrow> nodes w' ! j = nodes w ! j)))"
proof (intro conjI impI)
  assume "r = Inl e"
  then show "expand H self w node = Inl e" using assms by (simp add: expand_def)
next
  assume "r = Inr None"
  then show "expand H self w node = Inr (w\<lparr>decks := ds, rand := g\<rparr>, node)"
    using assms by (simp add: expand_def)
next
  assume "set (fst sc1) = set (fst sc2) \<and> set (snd sc1) = set (snd sc2)"
  then show "scenario_key H sc1 = scenario_key H sc2" by (simp add: scenario_key_def)
next
  assume a: "inj_on H D \<and> (set (fst sc1), set (snd sc1)) \<in> D \<and>
      (set (fst sc2), set (snd sc2)) \<in> D \<and> scenario_key H sc1 = scenario_key H sc2"
  then have "H (set (fst sc1), set (snd sc1)) = H (set (fst sc2), set (snd sc2))"
    by (simp add: scenario_key_def)
  then have "(set (fst sc1), set (snd sc1)) = (set (fst sc2), set (snd sc2))"
    using a inj_onD [of H D] by blast
  then show "set (fst sc1) = set (fst sc2)" and "set (snd sc1) = set (snd sc2)" by simp_all
next
  assume "r = Inr (Some sc) \<and> map_of (children (nodes w ! node)) (scenario_key H sc) = Some ch"
  then show "expand H self w node = Inr (w\<lparr>decks := ds, rand := g\<rparr>, ch)"
    using assms by (simp add: expand_def)
next
  assume a: "r = Inr (Some sc) \<and> map_of (children (nodes w ! node)) (scenario_key H sc) = None \<and>
        node < length (nodes w)"
  let ?child = "MCTSNode_init (hand (nodes w ! node)) (board (nodes w ! node)) (Some node) (Some sc)"
  let ?ns1 = "nodes w @ [?child]"
  let ?ns2 = "?ns1[node := (?ns1 ! node)
                 \<lparr>children := children (?ns1 ! node) @ [(scenario_key H sc, length (nodes w))]\<rparr>]"
  let ?w' = "w\<lparr>decks := ds, rand := g, nodes := ?ns2\<rparr>"
  have e: "expand H self w node = Inr (?w', length (nodes w))"
    using assms a by (simp add: expand_def Let_def)
  have n1: "?ns1 ! node = nodes w ! node" using a by (simp add: nth_append)
  have "nodes ?w' ! length (nodes w) = ?child" using a by simp
  moreover have "nodes ?w' ! node = (nodes w ! node)
               \<lparr>children := children (nodes w ! node) @ [(scenario_key H sc, length (nodes w))]\<rparr>"
    using a n1 by simp
  moreover have "\<forall>j < length (nodes w). j \<noteq> node \<longrightarrow> nodes ?w' ! j = nodes w ! j"
    by (simp add: nth_append)
  ultimately show "\<exists>w'. expand H self w node = Inr (w', length (nodes w)) \<and>
             decks w' = ds \<and> rand w' = g \<and>
             length (nodes w') = length (nodes w) + 1 \<and>
             nodes w' ! length (nodes w) =
               \<lparr>hand = hand (nodes w ! node), board = board (nodes w ! node),
                parent = Some node, scenario = Some sc, visits = 0, wins = 0, children = []\<rparr> \<and>
             nodes w' ! node = (nodes w ! node)
               \<lparr>children := children (nodes w ! node) @ [(scenario_key H sc, length (nodes w))]\<rparr> \<and>
             (\<forall>j < length (nodes w). j \<noteq> node \<longrightarrow> nodes w' ! j = nodes w ! j)"
    using e by (simp add: MCTSNode_init_def)
qed

theorem expand_contract_witness:
  "expand ex_hash (ex_bot\<lparr>bot_board := [PInt 7]\<rparr>)
     \<lparr>nodes = [ex_root 1 0 []], decks = [[Card 1, Card 2, Card 3]], rand = [1, 2, 3]\<rparr> 0
     = Inl NotEnoughCards
   \<and> expand ex_hash ex_bot
     \<lparr>nodes = [ex_root 1 0 []], decks = [[Card 1]], rand = [1, 2, 3]\<rparr> 0
     = Inr (\<lparr>nodes = [ex_root 1 0 []], decks = [[Card 1]], rand = [1, 2, 3]\<rparr>, 0)
   \<and> scenario_key ex_hash ([Card 1, Card 4], [Card 3, Card 2])
     = scenario_key ex_hash ([Card 4, Card 1], [Card 2, Card 3])
   \<and> scenario_key ex_hash ([Card 1, Card 4], [Card 3, Card 2])
     \<noteq> scenario_key ex_hash ([Card 1, Card 2], [Card 3, Card 4])
   \<and> expand ex_hash ex_bot
     \<lparr>nodes = [ex_root 2 0 [(scenario_key ex_hash ([Card 4, Card 1], [Card 2, Card 3]), 1)],
               MCTSNode_init [PInt 51, PInt 52] [PInt 7, PInt 8, PInt 9] (Some 0)
                 (Some ([Card 4, Card 1], [Card 2, Card 3]))],
      decks = [ex_deck], rand = [1, 2, 3]\<rparr> 0
     = Inr (\<lparr>nodes = [ex_root 2 0 [(scenario_key ex_hash ([Card 4, Card 1], [Card 2, Card 3]), 1)],
               MCTSNode_init [PInt 51, PInt 52] [PInt 7, PInt 8, PInt 9] (Some 0)
                 (Some ([Card 4, Card 1], [Card 2, Card 3]))],
      decks = [ex_deck, []], rand = []\<rparr>, 1)
   \<and> (\<exists>w'. expand ex_hash ex_bot
     \<lparr>nodes = [ex_root 2 0 [(scenario_key ex_hash ([Card 1, Card 2], [Card 3, Card 4]), 1)],
               MCTSNode_init [PInt 51, PInt 52] [PInt 7, PInt 8, PInt 9] (Some 0)
                 (Some ([Card 1, Card 2], [Card 3, Card 4]))],
      decks = [ex_deck], rand = [1, 2, 3]\<rparr> 0 = Inr (w', 2)
      \<and> length (nodes w') = 3
      \<and> nodes w' ! 2 = MCTSNode_init [PInt 51, PInt 52] [PInt 7, PInt 8, PInt 9] (Some 0)
                 (Some ([Card 1, Card 4], [Card 3, Card 2]))
      \<and> nodes w' ! 1 = MCTSNode_init [PInt 51, PInt 52] [PInt 7, PInt 8, PInt 9] (Some 0)
                 (Some ([Card 1, Card 2], [Card 3, Card 4]))
      \<and> children (nodes w' ! 0)
          = [(scenario_key ex_hash ([Card 1, Card 2], [Card 3, Card 4]), 1),
             (scenario_key ex_hash ([Card 1, Card 4], [Card 3, Card 2]), 2)])"
proof -
  let ?sc = "([Card 1, Card 4], [Card 3, Card 2])"
  let ?sc' = "([Card 4, Card 1], [Card 2, Card 3])"
  let ?sc2 = "([Card 1, Card 2], [Card 3, Card 4])"
  let ?selfr = "ex_bot\<lparr>bot_board := [PInt 7]\<rparr>"
  let ?wr = "\<lparr>nodes = [ex_root 1 0 []], decks = [[Card 1, Card 2, Card 3]], rand = [1, 2, 3]\<rparr>"
  let ?wn = "\<lparr>nodes = [ex_root 1 0 []], decks = [[Card 1]], rand = [1, 2, 3]\<rparr>"
  let ?wf = "\<lparr>nodes = [ex_root 2 0 [(scenario_key ex_hash ?sc', 1)],
               MCTSNode_init [PInt 51, PInt 52] [PInt 7, PInt 8, PInt 9] (Some 0) (Some ?sc')],
      decks = [ex_deck], rand = [1, 2, 3]\<rparr>"
  let ?wo = "\<lparr>nodes = [ex_root 2 0 [(scenario_key ex_hash ?sc2, 1)],
               MCTSNode_init [PInt 51, PInt 52] [PInt 7, PInt 8, PInt 9] (Some 0) (Some ?sc2)],
      decks = [ex_deck], rand = [1, 2, 3]\<rparr>"
  have gr0: "\<exists>ds g. generate_scenario [[Card 1, Card 2, Card 3]] ?selfr [1, 2, 3]
      = (ds, g, Inl NotEnoughCards)"
  proof -
    have "snd (snd (generate_scenario [[Card 1, Card 2, Card 3]] ?selfr [1, 2, 3]))
        = Inl NotEnoughCards"
      by code_simp
    then show ?thesis
      by (cases "generate_scenario [[Card 1, Card 2, Card 3]] ?selfr [1, 2, 3]") auto
  qed
  then obtain dsr gr' where gr: "generate_scenario (decks ?wr) ?selfr (rand ?wr)
      = (dsr, gr', Inl NotEnoughCards)"
    by auto
  have gn: "generate_scenario (decks ?wn) ex_bot (rand ?wn) = ([[Card 1]], [1, 2, 3], Inr None)"
    by code_simp
  have gs: "generate_scenario [ex_deck] ex_bot [1, 2, 3] = ([ex_deck, []], [], Inr (Some ?sc))"
    by code_simp
  have gf: "generate_scenario (decks ?wf) ex_bot (rand ?wf) = ([ex_deck, []], [], Inr (Some ?sc))"
    using gs by simp
  have go: "generate_scenario (decks ?wo) ex_bot (rand ?wo) = ([ex_deck, []], [], Inr (Some ?sc))"
    using gs by simp
  have a: "expand ex_hash ?selfr ?wr 0 = Inl NotEnoughCards"
    using expand_contract [OF gr, where H = ex_hash and node = 0 and e = NotEnoughCards
        and ?sc1.0 = ?sc and ?sc2.0 = ?sc and D = ex_dom and sc = ?sc and ch = 0]
    by simp
  have b: "expand ex_hash ex_bot ?wn 0 = Inr (?wn, 0)"
    using expand_contract [OF gn, where H = ex_hash and node = 0 and e = NotEnoughCards
        and ?sc1.0 = ?sc and ?sc2.0 = ?sc and D = ex_dom and sc = ?sc and ch = 0]
    by simp
  have k: "scenario_key ex_hash ?sc = scenario_key ex_hash ?sc'"
  proof -
    have "set (fst ?sc) = set (fst ?sc') \<and> set (snd ?sc) = set (snd ?sc')" by auto
    then show ?thesis
      using expand_contract [OF gn, where H = ex_hash and node = 0 and e = NotEnoughCards
          and ?sc1.0 = ?sc and ?sc2.0 = ?sc' and D = ex_dom and sc = ?sc and ch = 0]
      by blast
  qed
  have dom: "(set (fst ?sc), set (snd ?sc)) \<in> ex_dom" "(set (fst ?sc2), set (snd ?sc2)) \<in> ex_dom"
    by simp_all
  have diff: "set (fst ?sc) \<noteq> set (fst ?sc2)" by (auto simp: doubleton_eq_iff)
  have nk: "scenario_key ex_hash ?sc \<noteq> scenario_key ex_hash ?sc2"
    using expand_contract [OF gn, where H = ex_hash and node = 0 and e = NotEnoughCards
        and ?sc1.0 = ?sc and ?sc2.0 = ?sc2 and D = ex_dom and sc = ?sc and ch = 0]
      ex_hash_inj dom diff
    by blast
  have look: "map_of (children (nodes ?wf ! 0)) (scenario_key ex_hash ?sc) = Some 1"
    using k by simp
  have c: "expand ex_hash ex_bot ?wf 0 = Inr (?wf\<lparr>decks := [ex_deck, []], rand := []\<rparr>, 1)"
    using expand_contract [OF gf, where H = ex_hash and node = 0 and e = NotEnoughCards
        and ?sc1.0 = ?sc and ?sc2.0 = ?sc and D = ex_dom and sc = ?sc and ch = 1] look
    by blast
  have miss: "map_of (children (nodes ?wo ! 0)) (scenario_key ex_hash ?sc) = None"
    using nk by simp
  have l: "(0::nat) < length (nodes ?wo)" by simp
  obtain w' where w': "expand ex_hash ex_bot ?wo 0 = Inr (w', length (nodes ?wo))"
      "length (nodes w') = length (nodes ?wo) + 1"
      "nodes w' ! length (nodes ?wo) =
               \<lparr>hand = hand (nodes ?wo ! 0), board = board (nodes ?wo ! 0),
                parent = Some 0, scenario = Some ?sc, visits = 0, wins = 0, children = []\<rparr>"
      "nodes w' ! 0 = (nodes ?wo ! 0)
               \<lparr>children := children (nodes ?wo ! 0)
                               @ [(scenario_key ex_hash ?sc, length (nodes ?wo))]\<rparr>"
      "\<forall>j < length (nodes ?wo). j \<noteq> 0 \<longrightarrow> nodes w' ! j = nodes ?wo ! j"
    using expand_contract [OF go, where H = ex_hash and node = 0 and e = NotEnoughCards
        and ?sc1.0 = ?sc and ?sc2.0 = ?sc and D = ex_dom and sc = ?sc and ch = 0] miss l
    by blast
  have d: "\<exists>w'. expand ex_hash ex_bot ?wo 0 = Inr (w', 2)
      \<and> length (nodes w') = 3
      \<and> nodes w' ! 2 = MCTSNode_init [PInt 51, PInt 52] [PInt 7, PInt 8, PInt 9] (Some 0) (Some ?sc)
      \<and> nodes w' ! 1 = MCTSNode_init [PInt 51, PInt 52] [PInt 7, PInt 8, PInt 9] (Some 0) (Some ?sc2)
      \<and> children (nodes w' ! 0)
          = [(scenario_key ex_hash ?sc2, 1), (scenario_key ex_hash ?sc, 2)]"
  proof (intro exI conjI)
    show "expand ex_hash ex_bot ?wo 0 = Inr (w', 2)" using w'(1) by simp
    show "length (nodes w') = 3" using w'(2) by simp
    show "nodes w' ! 2 = MCTSNode_init [PInt 51, PInt 52] [PInt 7, PInt 8, PInt 9] (Some 0) (Some ?sc)"
      using w'(3) by (simp add: MCTSNode_init_def numeral_2_eq_2)
    show "nodes w' ! 1 = MCTSNode_init [PInt 51, PInt 52] [PInt 7, PInt 8, PInt 9] (Some 0) (Some ?sc2)"
      using w'(5) by simp
    show "children (nodes w' ! 0)
          = [(scenario_key ex_hash ?sc2, 1), (scenario_key ex_hash ?sc, 2)]"
      using w'(4) by simp
  qed
  show ?thesis using a b k nk c d by simp
qed

text \<open>
  A visited root, two cards in the deck and an empty board: the sampler raises in its second
  \<^verbatim>\<open>deal\<close>, and \<^verbatim>\<open>expand\<close> neither returns the leaf nor a child, it raises.
\<close>

theorem expand_raises_counterexample:
  "expand ex_hash \<lparr>bot_hand = [PInt 51, PInt 52], bot_board = [], bot_deck = Some 0, bot_root = 0\<rparr>
     \<lparr>nodes = [\<lparr>hand = [PInt 51, PInt 52], board = [], parent = None, scenario = None,
                visits = 1, wins = 0, children = []\<rparr>],
      decks = [[Card 1, Card 2]], rand = [1]\<rparr> 0
   = Inl NotEnoughCards"
proof -
  have "generate_scenario [[Card 1, Card 2]]
      \<lparr>bot_hand = [PInt 51, PInt 52], bot_board = [], bot_deck = Some 0, bot_root = 0\<rparr> [1]
    = ([[Card 1, Card 2], []], [], Inl NotEnoughCards)"
    by code_simp
  then show ?thesis by (simp add: expand_def)
qed

section \<open>The search loop\<close>

lemma simulate_nodes:
  assumes "simulate hand_ranks self w leaf = Inr (w2, r)"
  shows "nodes w2 = nodes w \<and> (r = 0 \<or> r = 1)"
proof (cases "scenario (nodes w ! leaf)")
  case (Some sc)
  then show ?thesis using assms
    by (auto simp: simulate_def split: sum.splits if_splits)
next
  case None
  obtain ds g r' where gen: "generate_scenario (decks w) self (rand w) = (ds, g, r')"
    by (cases "generate_scenario (decks w) self (rand w)")
  show ?thesis
  proof (cases r')
    case (Inl e)
    then show ?thesis using assms None gen by (simp add: simulate_def)
  next
    case (Inr so)
    then show ?thesis using assms None gen
      by (cases so) (auto simp: simulate_def split: sum.splits if_splits)
  qed
qed

lemma wf_tree_links:
  assumes "wf_tree ns" and "length ns' = length ns"
    and "\<And>i. i < length ns \<Longrightarrow> parent (ns' ! i) = parent (ns ! i)"
    and "\<And>i. i < length ns \<Longrightarrow> children (ns' ! i) = children (ns ! i)"
  shows "wf_tree ns'"
  unfolding wf_tree_def
proof (intro allI impI conjI ballI)
  fix a p
  assume "a < length ns'" "parent (ns' ! a) = Some p"
  then show "p < a" using assms by (simp add: wf_tree_def)
next
  fix a c
  assume a: "a < length ns'" and c: "c \<in> snd ` set (children (ns' ! a))"
  then have "c \<in> snd ` set (children (ns ! a))" using assms(2,4) by simp
  then have ok: "a < c" "c < length ns" "parent (ns ! c) = Some a"
    using assms(1,2) a by (auto simp: wf_tree_def)
  show "a < c" by (rule ok(1))
  show "c < length ns'" using ok(2) assms(2) by simp
  show "parent (ns' ! c) = Some a" using ok(2,3) assms(3) by simp
qed

lemma backpropagate_inv:
  assumes "wf_tree ns" and "stats_ok ns" and "a < length ns" and "r = 0 \<or> r = 1"
  shows "\<exists>ns'. backpropagate ns (Some a) r = Some ns' \<and> wf_tree ns' \<and> stats_ok ns' \<and>
           length ns' = length ns"
proof -
  obtain ns' where ns': "backpropagate ns (Some a) r = Some ns'" "length ns' = length ns"
      "\<forall>j < length ns.
              ns' ! j = (if on_path ns a j
                         then (ns ! j)\<lparr>visits := visits (ns ! j) + 1, wins := wins (ns ! j) + r\<rparr>
                         else ns ! j)"
    using backpropagate_path [OF assms(1,3), of r] by blast
  have wf: "wf_tree ns'"
    by (rule wf_tree_links [OF assms(1) ns'(2)]) (simp_all add: ns'(3))
  have "stats_ok ns'"
    unfolding stats_ok_def
  proof (intro allI impI)
    fix j
    assume "j < length ns'"
    then have j: "j < length ns" using ns'(2) by simp
    have s: "0 \<le> wins (ns ! j)" "wins (ns ! j) \<le> visits (ns ! j)"
      using assms(2) j by (auto simp: stats_ok_def)
    have w: "0 \<le> wins (ns' ! j) \<and> wins (ns' ! j) \<le> visits (ns' ! j)"
      using s assms(4) ns'(3) j by auto
    have "\<forall>p. parent (ns' ! j) = Some p \<longrightarrow> visits (ns' ! j) \<le> visits (ns' ! p)"
    proof (intro allI impI)
      fix p
      assume "parent (ns' ! j) = Some p"
      then have pj: "parent (ns ! j) = Some p" using ns'(3) j by (simp split: if_splits)
      then have p: "p < length ns" using assms(1) j by (auto simp: wf_tree_def)
      have le: "visits (ns ! j) \<le> visits (ns ! p)"
        using assms(2) j pj by (auto simp: stats_ok_def)
      show "visits (ns' ! j) \<le> visits (ns' ! p)"
      proof (cases "on_path ns a j")
        case True
        then have "on_path ns a p" using pj by (rule on_path.on_path_up)
        then show ?thesis using True le ns'(3) j p by simp
      next
        case False
        then show ?thesis using le ns'(3) j p by simp
      qed
    qed
    then show "0 \<le> wins (ns' ! j) \<and> wins (ns' ! j) \<le> visits (ns' ! j) \<and>
        (\<forall>p. parent (ns' ! j) = Some p \<longrightarrow> visits (ns' ! j) \<le> visits (ns' ! p))"
      using w by simp
  qed
  then show ?thesis using ns'(1,2) wf by blast
qed

lemma add_child_wf:
  assumes wf: "wf_tree ns" and node: "node < length ns"
    and len: "length ns' = length ns + 1"
    and newp: "parent (ns' ! length ns) = Some node"
    and newc: "children (ns' ! length ns) = []"
    and upd: "ns' ! node = (ns ! node)\<lparr>children := children (ns ! node) @ [(key, length ns)]\<rparr>"
    and oth: "\<And>j. j < length ns \<Longrightarrow> j \<noteq> node \<Longrightarrow> ns' ! j = ns ! j"
  shows "wf_tree ns'"
proof -
  have par: "parent (ns' ! j) = parent (ns ! j)" if "j < length ns" for j
  proof (cases "j = node")
    case True
    then show ?thesis using upd by simp
  next
    case False
    then show ?thesis using oth that by simp
  qed
  have chi: "children (ns' ! j) = children (ns ! j)" if "j < length ns" "j \<noteq> node" for j
    using that oth by simp
  have chn: "snd ` set (children (ns' ! node)) = insert (length ns) (snd ` set (children (ns ! node)))"
    using upd by simp
  have old: "a < c \<and> c < length ns \<and> parent (ns ! c) = Some a"
    if "a < length ns" "c \<in> snd ` set (children (ns ! a))" for a c
    using wf that unfolding wf_tree_def by blast
  have oldp: "p < a" if "a < length ns" "parent (ns ! a) = Some p" for a p
    using wf that unfolding wf_tree_def by blast
  show ?thesis
    unfolding wf_tree_def
  proof (intro allI impI conjI ballI)
    fix a p
    assume a: "a < length ns'" and p: "parent (ns' ! a) = Some p"
    show "p < a"
    proof (cases "a = length ns")
      case True
      then show ?thesis using p newp node by simp
    next
      case False
      then have aL: "a < length ns" using a len by simp
      then have "parent (ns ! a) = Some p" using p par by simp
      then show ?thesis using oldp aL by blast
    qed
  next
    fix a c
    assume a: "a < length ns'" and c: "c \<in> snd ` set (children (ns' ! a))"
    have res: "a < c \<and> c < length ns' \<and> parent (ns' ! c) = Some a"
    proof (cases "a = length ns")
      case True
      then show ?thesis using c newc by simp
    next
      case False
      then have aL: "a < length ns" using a len by simp
      show ?thesis
      proof (cases "c = length ns")
        case True
        have "a = node"
        proof (rule ccontr)
          assume "a \<noteq> node"
          then have "c \<in> snd ` set (children (ns ! a))" using c chi aL by simp
          then have "c < length ns" using old aL by blast
          then show False using True by simp
        qed
        then show ?thesis using True len newp node by simp
      next
        case False
        have "c \<in> snd ` set (children (ns ! a))"
        proof (cases "a = node")
          case True
          then show ?thesis using c chn False by simp
        next
          case False
          then show ?thesis using c chi aL by simp
        qed
        then have o: "a < c" "c < length ns" "parent (ns ! c) = Some a"
          using old aL by blast+
        then have "parent (ns' ! c) = Some a" using par by simp
        then show ?thesis using o len by simp
      qed
    qed
    show "a < c" using res by simp
    show "c < length ns'" using res by simp
    show "parent (ns' ! c) = Some a" using res by simp
  qed
qed


lemma add_child_stats:
  assumes wf: "wf_tree ns" and st: "stats_ok ns" and node: "node < length ns"
    and len: "length ns' = length ns + 1"
    and newp: "parent (ns' ! length ns) = Some node"
    and newv: "visits (ns' ! length ns) = 0" "wins (ns' ! length ns) = 0"
    and upd: "ns' ! node = (ns ! node)\<lparr>children := children (ns ! node) @ [(key, length ns)]\<rparr>"
    and oth: "\<And>j. j < length ns \<Longrightarrow> j \<noteq> node \<Longrightarrow> ns' ! j = ns ! j"
  shows "stats_ok ns'"
proof -
  have same: "parent (ns' ! j) = parent (ns ! j) \<and> visits (ns' ! j) = visits (ns ! j) \<and>
              wins (ns' ! j) = wins (ns ! j)" if "j < length ns" for j
  proof (cases "j = node")
    case True
    then show ?thesis using upd by simp
  next
    case False
    then show ?thesis using oth that by simp
  qed
  have old: "0 \<le> wins (ns ! j) \<and> wins (ns ! j) \<le> visits (ns ! j) \<and>
        (\<forall>p. parent (ns ! j) = Some p \<longrightarrow> visits (ns ! j) \<le> visits (ns ! p))"
    if "j < length ns" for j
    using st that unfolding stats_ok_def by blast
  have oldp: "p < a" if "a < length ns" "parent (ns ! a) = Some p" for a p
    using wf that unfolding wf_tree_def by blast
  show ?thesis
    unfolding stats_ok_def
  proof (intro allI impI)
    fix j
    assume j: "j < length ns'"
    show "0 \<le> wins (ns' ! j) \<and> wins (ns' ! j) \<le> visits (ns' ! j) \<and>
          (\<forall>p. parent (ns' ! j) = Some p \<longrightarrow> visits (ns' ! j) \<le> visits (ns' ! p))"
    proof (cases "j = length ns")
      case True
      have "0 \<le> visits (ns ! node)" using old [OF node] by linarith
      then have "0 \<le> visits (ns' ! node)" using same [OF node] by simp
      then show ?thesis using True newp newv by simp
    next
      case False
      then have jL: "j < length ns" using j len by simp
      have "visits (ns' ! j) \<le> visits (ns' ! p)" if "parent (ns' ! j) = Some p" for p
      proof -
        have pj: "parent (ns ! j) = Some p" using that same [OF jL] by simp
        then have "p < length ns" using oldp [OF jL pj] jL by simp
        then have "visits (ns' ! p) = visits (ns ! p)" using same by blast
        moreover have "visits (ns ! j) \<le> visits (ns ! p)" using old [OF jL] pj by blast
        ultimately show ?thesis using same [OF jL] by simp
      qed
      then show ?thesis using same [OF jL] old [OF jL] by simp
    qed
  qed
qed

lemma expand_cases:
  assumes "expand H self w node = Inr (w1, leaf)" and "node < length (nodes w)"
  shows "(nodes w1 = nodes w \<and>
           (leaf = node \<or> leaf \<in> snd ` set (children (nodes w ! node)))) \<or>
         (\<exists>sc key. leaf = length (nodes w) \<and>
            nodes w1 = (nodes w @ [MCTSNode_init (hand (nodes w ! node)) (board (nodes w ! node))
                                    (Some node) (Some sc)])
              [node := (nodes w ! node)
                 \<lparr>children := children (nodes w ! node) @ [(key, length (nodes w))]\<rparr>])"
proof -
  obtain ds g r where gen: "generate_scenario (decks w) self (rand w) = (ds, g, r)"
    by (cases "generate_scenario (decks w) self (rand w)")
  show ?thesis
  proof (cases r)
    case (Inl e)
    then show ?thesis using assms(1) gen by (simp add: expand_def)
  next
    case (Inr so)
    show ?thesis
    proof (cases so)
      case None
      then have "w1 = w\<lparr>decks := ds, rand := g\<rparr> \<and> leaf = node"
        using assms(1) gen Inr by (simp add: expand_def)
      then show ?thesis by simp
    next
      case (Some sc)
      show ?thesis
      proof (cases "map_of (children (nodes w ! node)) (scenario_key H sc)")
        case found: (Some ch)
        have "(scenario_key H sc, ch) \<in> set (children (nodes w ! node))"
          using found by (rule map_of_SomeD)
        then have "ch \<in> snd ` set (children (nodes w ! node))" by force
        moreover have "w1 = w\<lparr>decks := ds, rand := g\<rparr> \<and> leaf = ch"
          using assms(1) gen Inr Some found by (simp add: expand_def)
        ultimately show ?thesis by simp
      next
        case fresh: None
        have n: "(nodes w @ [c]) ! node = nodes w ! node" for c
          using assms(2) by (simp add: nth_append)
        have "leaf = length (nodes w) \<and>
            nodes w1 = (nodes w @ [MCTSNode_init (hand (nodes w ! node)) (board (nodes w ! node))
                                    (Some node) (Some sc)])
              [node := (nodes w ! node)
                 \<lparr>children := children (nodes w ! node)
                                 @ [(scenario_key H sc, length (nodes w))]\<rparr>]"
          using assms(1) gen Inr Some fresh by (auto simp: expand_def Let_def n)
        then show ?thesis by blast
      qed
    qed
  qed
qed

lemma expand_inv:
  assumes "wf_tree (nodes w)" and "stats_ok (nodes w)" and "node < length (nodes w)"
    and "expand H self w node = Inr (w1, leaf)"
  shows "wf_tree (nodes w1) \<and> stats_ok (nodes w1) \<and> leaf < length (nodes w1) \<and>
         length (nodes w) \<le> length (nodes w1)"
proof -
  from expand_cases [OF assms(4,3)] show ?thesis
  proof
    assume a: "nodes w1 = nodes w \<and>
           (leaf = node \<or> leaf \<in> snd ` set (children (nodes w ! node)))"
    have "leaf < length (nodes w)"
    proof (cases "leaf = node")
      case True
      then show ?thesis using assms(3) by simp
    next
      case False
      then have "leaf \<in> snd ` set (children (nodes w ! node))" using a by simp
      then show ?thesis using assms(1,3) unfolding wf_tree_def by blast
    qed
    then show ?thesis using a assms(1,2) by simp
  next
    assume "\<exists>sc key. leaf = length (nodes w) \<and>
            nodes w1 = (nodes w @ [MCTSNode_init (hand (nodes w ! node)) (board (nodes w ! node))
                                    (Some node) (Some sc)])
              [node := (nodes w ! node)
                 \<lparr>children := children (nodes w ! node) @ [(key, length (nodes w))]\<rparr>]"
    then obtain sc key where leaf: "leaf = length (nodes w)"
      and n1: "nodes w1 = (nodes w @ [MCTSNode_init (hand (nodes w ! node))
                                        (board (nodes w ! node)) (Some node) (Some sc)])
              [node := (nodes w ! node)
                 \<lparr>children := children (nodes w ! node) @ [(key, length (nodes w))]\<rparr>]"
      by blast
    have len: "length (nodes w1) = length (nodes w) + 1" by (simp add: n1)
    have new: "nodes w1 ! length (nodes w) = MCTSNode_init (hand (nodes w ! node))
                                        (board (nodes w ! node)) (Some node) (Some sc)"
      using assms(3) by (simp add: n1)
    have upd: "nodes w1 ! node = (nodes w ! node)
                 \<lparr>children := children (nodes w ! node) @ [(key, length (nodes w))]\<rparr>"
      using assms(3) by (simp add: n1)
    have oth: "\<And>j. j < length (nodes w) \<Longrightarrow> j \<noteq> node \<Longrightarrow> nodes w1 ! j = nodes w ! j"
      by (simp add: n1 nth_append)
    have "wf_tree (nodes w1)"
      by (rule add_child_wf [OF assms(1,3) len _ _ upd oth])
         (simp_all add: new MCTSNode_init_def)
    moreover have "stats_ok (nodes w1)"
      by (rule add_child_stats [OF assms(1,2,3) len _ _ _ upd oth])
         (simp_all add: new MCTSNode_init_def)
    ultimately show ?thesis using leaf len by simp
  qed
qed

lemma search_step_inv:
  assumes "wf_tree (nodes w)" and "stats_ok (nodes w)" and "bot_root self < length (nodes w)"
  shows "\<exists>r. search_step H hand_ranks self w = Some r \<and>
           (\<forall>w'. r = Inr w' \<longrightarrow>
              wf_tree (nodes w') \<and> stats_ok (nodes w') \<and> bot_root self < length (nodes w'))"
proof -
  obtain leaf0 where sel: "select self (nodes w) = Some (Inr leaf0)" "leaf0 < length (nodes w)"
    using select_loop_descends [OF assms] by (auto simp: select_def)
  let ?ex = "if visits (nodes w ! leaf0) > 0 then expand H self w leaf0 else Inr (w, leaf0)"
  show ?thesis
  proof (cases ?ex)
    case (Inl e)
    then have "search_step H hand_ranks self w = Some (Inl e)"
      using sel(1) by (simp add: search_step_def)
    then show ?thesis by simp
  next
    case (Inr p)
    obtain w1 leaf where p: "p = (w1, leaf)" by (cases p)
    have inv1: "wf_tree (nodes w1) \<and> stats_ok (nodes w1) \<and> leaf < length (nodes w1) \<and>
         length (nodes w) \<le> length (nodes w1)"
    proof (cases "visits (nodes w ! leaf0) > 0")
      case True
      then have "expand H self w leaf0 = Inr (w1, leaf)" using Inr p by simp
      then show ?thesis using expand_inv [OF assms(1,2) sel(2)] by blast
    next
      case False
      then have "w1 = w \<and> leaf = leaf0" using Inr p by simp
      then show ?thesis using assms sel(2) by simp
    qed
    show ?thesis
    proof (cases "simulate hand_ranks self w1 leaf")
      case sim: (Inl e)
      then have "search_step H hand_ranks self w = Some (Inl e)"
        using sel(1) Inr p by (simp add: search_step_def)
      then show ?thesis by simp
    next
      case sim: (Inr q)
      obtain w2 result where q: "q = (w2, result)" by (cases q)
      have s2: "nodes w2 = nodes w1" "result = 0 \<or> result = 1"
        using simulate_nodes [of hand_ranks self w1 leaf w2 result] sim q by simp_all
      obtain ns where ns: "backpropagate (nodes w2) (Some leaf) result = Some ns"
          "wf_tree ns" "stats_ok ns" "length ns = length (nodes w2)"
        using backpropagate_inv [of "nodes w2" leaf result] inv1 s2 by auto
      have "search_step H hand_ranks self w = Some (Inr (w2\<lparr>nodes := ns\<rparr>))"
        using sel(1) Inr p sim q ns(1) by (simp add: search_step_def)
      moreover have "bot_root self < length ns" using ns(4) s2(1) inv1 assms(3) by simp
      ultimately show ?thesis using ns(2,3) by simp
    qed
  qed
qed

lemma search_loop_inv:
  assumes "wf_tree (nodes w)" and "stats_ok (nodes w)" and "bot_root self < length (nodes w)"
  shows "\<exists>r. search_loop H hand_ranks self n w = Some r \<and>
           (\<forall>w'. r = Inr w' \<longrightarrow>
              wf_tree (nodes w') \<and> stats_ok (nodes w') \<and> bot_root self < length (nodes w'))"
  using assms
proof (induction n arbitrary: w)
  case 0
  then show ?case by simp
next
  case (Suc n)
  obtain r where r: "search_step H hand_ranks self w = Some r"
      "\<forall>w'. r = Inr w' \<longrightarrow>
              wf_tree (nodes w') \<and> stats_ok (nodes w') \<and> bot_root self < length (nodes w')"
    using search_step_inv [OF Suc.prems] by blast
  show ?case
  proof (cases r)
    case (Inl e)
    then show ?thesis using r(1) by simp
  next
    case (Inr w')
    then have "search_loop H hand_ranks self (Suc n) w = search_loop H hand_ranks self n w'"
      using r(1) by simp
    moreover have "wf_tree (nodes w')" "stats_ok (nodes w')" "bot_root self < length (nodes w')"
      using r(2) Inr by simp_all
    ultimately show ?thesis using Suc.IH [of w'] by simp
  qed
qed

lemma win_prob_bounds:
  assumes "stats_ok (nodes w)" and "bot_root self < length (nodes w)"
  shows "0 \<le> win_prob self w \<and> win_prob self w \<le> 1"
proof -
  have "0 \<le> wins (nodes w ! bot_root self)"
       "wins (nodes w ! bot_root self) \<le> visits (nodes w ! bot_root self)"
    using assms unfolding stats_ok_def by blast+
  then show ?thesis by (simp add: win_prob_def)
qed

lemma ex_select0: "select ex_bot (nodes ex_w0) = Some (Inr 0)"
  by (simp add: select_def select_loop.simps)

lemma ex_simulate0:
  "simulate ex_table ex_bot ex_w0 0
     = Inr (\<lparr>nodes = [ex_root 0 0 []], decks = [ex_deck, []], rand = [4, 5, 6, 7, 8, 9]\<rparr>, 1)"
  by code_simp

lemma ex_backpropagate0: "backpropagate [ex_root 0 0 []] (Some 0) 1 = Some [ex_root 1 1 []]"
  by (simp add: backpropagate.simps)

lemma ex_select1: "select ex_bot (nodes ex_w1) = Some (Inr 0)"
  by (simp add: select_def select_loop.simps)

lemma ex_expand1:
  "expand (\<lambda>_. 42) ex_bot ex_w1 0
     = Inr (\<lparr>nodes = [ex_root 1 1 [(42, 1)], ex_child 0 0], decks = [ex_deck, [], []],
             rand = [7, 8, 9]\<rparr>, 1)"
  by code_simp

lemma ex_simulate1:
  "simulate ex_table ex_bot
     \<lparr>nodes = [ex_root 1 1 [(42, 1)], ex_child 0 0], decks = [ex_deck, [], []],
       rand = [7, 8, 9]\<rparr> 1
     = Inr (\<lparr>nodes = [ex_root 1 1 [(42, 1)], ex_child 0 0], decks = [ex_deck, [], []],
             rand = [7, 8, 9]\<rparr>, 1)"
  by code_simp

lemma ex_backpropagate1:
  "backpropagate [ex_root 1 1 [(42, 1)], ex_child 0 0] (Some 1) 1
     = Some [ex_root 2 2 [(42, 1)], ex_child 1 1]"
  by (simp add: backpropagate.simps)


section \<open>Search, probability and decision\<close>

text \<open>
  Claim C9. A fresh bot's store (the root alone, created with no visits and no wins) is
  well-formed and satisfies the statistics invariant: every node has
  \<open>0 \<le> wins \<le> visits\<close>, and no node has more visits than its parent. From a store with
  these properties every iteration of the search returns, and unless an exception ends it,
  the store it leaves has them again. So the search of any number of iterations returns, and
  when it completes, the win probability lies between 0 and 1.
\<close>

theorem win_probability_bounds:
  "(wf_tree (nodes (fst (PokerBot_init \<lparr>nodes = [], decks = ds, rand = g\<rparr> h b d))) \<and>
    stats_ok (nodes (fst (PokerBot_init \<lparr>nodes = [], decks = ds, rand = g\<rparr> h b d))) \<and>
    bot_root (snd (PokerBot_init \<lparr>nodes = [], decks = ds, rand = g\<rparr> h b d))
      < length (nodes (fst (PokerBot_init \<lparr>nodes = [], decks = ds, rand = g\<rparr> h b d))))
   \<and> (wf_tree (nodes w) \<and> stats_ok (nodes w) \<and> bot_root self < length (nodes w) \<longrightarrow>
        (\<exists>r. search_step H hand_ranks self w = Some r \<and>
           (\<forall>w'. r = Inr w' \<longrightarrow>
              wf_tree (nodes w') \<and> stats_ok (nodes w') \<and> bot_root self < length (nodes w'))) \<and>
        (\<exists>res. search H hand_ranks self n w = Some res \<and>
           (\<forall>w' p. res = Inr (w', p) \<longrightarrow>
              0 \<le> p \<and> p \<le> 1 \<and>
              wf_tree (nodes w') \<and> stats_ok (nodes w') \<and> bot_root self < length (nodes w'))))"
proof (intro conjI impI)
  let ?w0 = "fst (PokerBot_init \<lparr>nodes = [], decks = ds, rand = g\<rparr> h b d)"
  have n: "nodes ?w0 = [MCTSNode_init h b None None]" by (simp add: PokerBot_init_def)
  show "wf_tree (nodes ?w0)" unfolding n by (simp add: wf_tree_def MCTSNode_init_def)
  show "stats_ok (nodes ?w0)" unfolding n by (simp add: stats_ok_def MCTSNode_init_def)
  show "bot_root (snd (PokerBot_init \<lparr>nodes = [], decks = ds, rand = g\<rparr> h b d))
      < length (nodes ?w0)" by (simp add: PokerBot_init_def)
next
  assume a: "wf_tree (nodes w) \<and> stats_ok (nodes w) \<and> bot_root self < length (nodes w)"
  then show "\<exists>r. search_step H hand_ranks self w = Some r \<and>
           (\<forall>w'. r = Inr w' \<longrightarrow>
              wf_tree (nodes w') \<and> stats_ok (nodes w') \<and> bot_root self < length (nodes w'))"
    using search_step_inv [of w self H hand_ranks] by blast
  obtain r where r: "search_loop H hand_ranks self n w = Some r"
      "\<forall>w'. r = Inr w' \<longrightarrow>
              wf_tree (nodes w') \<and> stats_ok (nodes w') \<and> bot_root self < length (nodes w')"
    using search_loop_inv [of w self H hand_ranks n] a by blast
  show "\<exists>res. search H hand_ranks self n w = Some res \<and>
           (\<forall>w' p. res = Inr (w', p) \<longrightarrow>
              0 \<le> p \<and> p \<le> 1 \<and>
              wf_tree (nodes w') \<and> stats_ok (nodes w') \<and> bot_root self < length (nodes w'))"
  proof (cases r)
    case (Inl e)
    then have "search H hand_ranks self n w = Some (Inl e)" using r(1) by (simp add: search_def)
    then show ?thesis by simp
  next
    case (Inr w')
    then have s: "search H hand_ranks self n w = Some (Inr (w', win_prob self w'))"
      using r(1) by (simp add: search_def)
    have inv: "wf_tree (nodes w')" "stats_ok (nodes w')" "bot_root self < length (nodes w')"
      using r(2) Inr by simp_all
    then show ?thesis using s win_prob_bounds [OF inv(2,3)] by simp
  qed
qed

theorem win_probability_bounds_witness:
  "PokerBot_init \<lparr>nodes = [], decks = [ex_deck], rand = [1, 2, 3, 4, 5, 6, 7, 8, 9]\<rparr>
      [PInt 51, PInt 52] [PInt 7, PInt 8, PInt 9] (Some 0) = (ex_w0, ex_bot)
   \<and> wf_tree (nodes ex_w0) \<and> stats_ok (nodes ex_w0)
   \<and> search_step (\<lambda>_. 42) ex_table ex_bot ex_w0 = Some (Inr ex_w1)
   \<and> stats_ok (nodes ex_w1)
   \<and> (\<exists>p. search (\<lambda>_. 42) ex_table ex_bot 2 ex_w0 = Some (Inr (ex_w2, p)) \<and>
          p = 1 \<and> 0 \<le> p \<and> p \<le> 1 \<and> wf_tree (nodes ex_w2) \<and> stats_ok (nodes ex_w2))"
proof -
  have init: "PokerBot_init \<lparr>nodes = [], decks = [ex_deck], rand = [1, 2, 3, 4, 5, 6, 7, 8, 9]\<rparr>
      [PInt 51, PInt 52] [PInt 7, PInt 8, PInt 9] (Some 0) = (ex_w0, ex_bot)"
    by (simp add: PokerBot_init_def MCTSNode_init_def)
  have inv0: "wf_tree (nodes ex_w0) \<and> stats_ok (nodes ex_w0) \<and>
              bot_root ex_bot < length (nodes ex_w0)"
    using win_probability_bounds [of "[ex_deck]" "[1, 2, 3, 4, 5, 6, 7, 8, 9]"
        "[PInt 51, PInt 52]" "[PInt 7, PInt 8, PInt 9]" "Some 0"] init
    by simp
  have st1: "search_step (\<lambda>_. 42) ex_table ex_bot ex_w0 = Some (Inr ex_w1)"
    using ex_select0 ex_simulate0 ex_backpropagate0 by (simp add: search_step_def)
  have st2: "search_step (\<lambda>_. 42) ex_table ex_bot ex_w1 = Some (Inr ex_w2)"
    using ex_select1 ex_expand1 ex_simulate1 ex_backpropagate1 by (simp add: search_step_def)
  have loop: "search_loop (\<lambda>_. 42) ex_table ex_bot 2 ex_w0 = Some (Inr ex_w2)"
    using st1 st2 by (simp add: numeral_2_eq_2)
  have s: "search (\<lambda>_. 42) ex_table ex_bot 2 ex_w0 = Some (Inr (ex_w2, 1))"
    using loop by (simp add: search_def win_prob_def)
  have step: "\<exists>r. search_step (\<lambda>_. 42) ex_table ex_bot ex_w0 = Some r \<and>
           (\<forall>w'. r = Inr w' \<longrightarrow>
              wf_tree (nodes w') \<and> stats_ok (nodes w') \<and> bot_root ex_bot < length (nodes w'))"
    and fin: "\<exists>res. search (\<lambda>_. 42) ex_table ex_bot 2 ex_w0 = Some res \<and>
           (\<forall>w' p. res = Inr (w', p) \<longrightarrow>
              0 \<le> p \<and> p \<le> 1 \<and>
              wf_tree (nodes w') \<and> stats_ok (nodes w') \<and> bot_root ex_bot < length (nodes w'))"
    using win_probability_bounds [of "[]" "[]" "[]" "[]" None ex_w0 ex_bot "\<lambda>_. 42" ex_table 2]
      inv0 by blast+
  have inv1: "stats_ok (nodes ex_w1)" using step st1 by auto
  have inv2: "(0::real) \<le> 1 \<and> (1::real) \<le> 1 \<and> wf_tree (nodes ex_w2) \<and> stats_ok (nodes ex_w2)"
    using fin s by auto
  show ?thesis using init inv0 st1 inv1 s inv2 by simp
qed



text \<open>
  Claim C2, as the code has it. When the loop of the search completes, \<^verbatim>\<open>search\<close> returns
  the win probability, which is \<open>root.wins / root.visits\<close> after the loop, and 0 when the
  root has no visit; \<^verbatim>\<open>make_decision\<close> returns the decision alone, which is \<^verbatim>\<open>STAY\<close>
  exactly when that probability is greater than or equal to the threshold, and \<^verbatim>\<open>FOLD\<close>
  otherwise.
\<close>

theorem decision_threshold:
  assumes "search_loop H hand_ranks self n w = Some (Inr w')"
  shows "\<exists>p d. search H hand_ranks self n w = Some (Inr (w', p)) \<and>
           p = (if visits (nodes w' ! bot_root self) > 0
                then real_of_int (wins (nodes w' ! bot_root self))
                       / real_of_int (visits (nodes w' ! bot_root self))
                else 0) \<and>
           make_decision H hand_ranks self n threshold w = Some (Inr (w', d)) \<and>
           (d = ''STAY'' \<longleftrightarrow> p \<ge> threshold) \<and>
           (d = ''FOLD'' \<longleftrightarrow> \<not> p \<ge> threshold)"
proof -
  have s: "search H hand_ranks self n w = Some (Inr (w', win_prob self w'))"
    using assms by (simp add: search_def)
  then have "make_decision H hand_ranks self n threshold w =
      Some (Inr (w', if win_prob self w' \<ge> threshold then ''STAY'' else ''FOLD''))"
    by (simp add: make_decision_def)
  then show ?thesis using s by (simp add: win_prob_def)
qed

theorem decision_threshold_witness:
  "search (\<lambda>_. 42) ex_table ex_bot 0
      \<lparr>nodes = [ex_root 10 7 []], decks = [ex_deck], rand = []\<rparr>
     = Some (Inr (\<lparr>nodes = [ex_root 10 7 []], decks = [ex_deck], rand = []\<rparr>, 7 / 10))
   \<and> make_decision (\<lambda>_. 42) ex_table ex_bot 0 (1 / 2)
      \<lparr>nodes = [ex_root 10 7 []], decks = [ex_deck], rand = []\<rparr>
     = Some (Inr (\<lparr>nodes = [ex_root 10 7 []], decks = [ex_deck], rand = []\<rparr>, ''STAY''))
   \<and> make_decision (\<lambda>_. 42) ex_table ex_bot 0 (4 / 5)
      \<lparr>nodes = [ex_root 10 7 []], decks = [ex_deck], rand = []\<rparr>
     = Some (Inr (\<lparr>nodes = [ex_root 10 7 []], decks = [ex_deck], rand = []\<rparr>, ''FOLD''))"
proof -
  let ?w = "\<lparr>nodes = [ex_root 10 7 []], decks = [ex_deck], rand = []\<rparr>"
  have l: "search_loop (\<lambda>_. 42) ex_table ex_bot 0 ?w = Some (Inr ?w)" by simp
  obtain p d where a: "search (\<lambda>_. 42) ex_table ex_bot 0 ?w = Some (Inr (?w, p))"
      "p = (if visits (nodes ?w ! bot_root ex_bot) > 0
                then real_of_int (wins (nodes ?w ! bot_root ex_bot))
                       / real_of_int (visits (nodes ?w ! bot_root ex_bot))
                else 0)"
      "make_decision (\<lambda>_. 42) ex_table ex_bot 0 (1 / 2) ?w = Some (Inr (?w, d))"
      "d = ''STAY'' \<longleftrightarrow> p \<ge> 1 / 2"
    using decision_threshold [OF l, of "1 / 2"] by blast
  obtain p' d' where b: "search (\<lambda>_. 42) ex_table ex_bot 0 ?w = Some (Inr (?w, p'))"
      "make_decision (\<lambda>_. 42) ex_table ex_bot 0 (4 / 5) ?w = Some (Inr (?w, d'))"
      "d' = ''FOLD'' \<longleftrightarrow> \<not> p' \<ge> 4 / 5"
    using decision_threshold [OF l, of "4 / 5"] by blast
  have p: "p = 7 / 10" using a(2) by simp
  then have "p' = 7 / 10" using a(1) b(1) by simp
  then have "d' = ''FOLD''" using b(3) by simp
  moreover have "d = ''STAY''" using a(4) p by simp
  ultimately show ?thesis using a(1,3) b(2) p by simp
qed

text \<open>
  Two roots with 7 and 8 wins in 10 visits: \<^verbatim>\<open>make_decision\<close> returns the same value
  \<^verbatim>\<open>STAY\<close> for both, the probabilities are 0.7 and 0.8; what it returns holds no
  probability.
\<close>

theorem decision_result_counterexample:
  "make_decision (\<lambda>_. 42) ex_table ex_bot 0 (1 / 2)
      \<lparr>nodes = [ex_root 10 7 []], decks = [ex_deck], rand = []\<rparr>
     = Some (Inr (\<lparr>nodes = [ex_root 10 7 []], decks = [ex_deck], rand = []\<rparr>, ''STAY''))
   \<and> make_decision (\<lambda>_. 42) ex_table ex_bot 0 (1 / 2)
      \<lparr>nodes = [ex_root 10 8 []], decks = [ex_deck], rand = []\<rparr>
     = Some (Inr (\<lparr>nodes = [ex_root 10 8 []], decks = [ex_deck], rand = []\<rparr>, ''STAY''))
   \<and> search (\<lambda>_. 42) ex_table ex_bot 0
      \<lparr>nodes = [ex_root 10 7 []], decks = [ex_deck], rand = []\<rparr>
     = Some (Inr (\<lparr>nodes = [ex_root 10 7 []], decks = [ex_deck], rand = []\<rparr>, 7 / 10))
   \<and> search (\<lambda>_. 42) ex_table ex_bot 0
      \<lparr>nodes = [ex_root 10 8 []], decks = [ex_deck], rand = []\<rparr>
     = Some (Inr (\<lparr>nodes = [ex_root 10 8 []], decks = [ex_deck], rand = []\<rparr>, 4 / 5))"
  by (simp add: make_decision_def search_def win_prob_def)

end
